theory Spec2Isabelle
  imports Main "HOL-Library.Char_ord" "HOL-Library.List_Lexorder" "HOL-Library.Product_Lexorder"
begin

section \<open>The rule \<open>sort-keys-fix\<close> of eslint-plugin-custom-sort-keys\<close>

text \<open>
  The development embeds \<^verbatim>\<open>lib/rules/sort-keys-fix.js\<close>: the helper
  \<^verbatim>\<open>getPropertyName\<close>, the table \<^verbatim>\<open>isValidOrders\<close>, the option parsing of
  \<^verbatim>\<open>create\<close>, and the four node handlers with the report and its \<^verbatim>\<open>fix\<close>.
  Property names are JavaScript strings; they are modelled as \<^typ>\<open>string\<close>, lists of
  8-bit character codes, compared lexicographically by character code as JavaScript's
  \<^verbatim>\<open><=\<close> compares strings by code unit.
  A thrown exception is a value of type \<^typ>\<open>'e + 'a\<close> (\<^const>\<open>Inl\<close> the exception).
\<close>

subsection \<open>Syntax nodes, tokens and the source text\<close>

datatype error = TypeError | AssertionError

record position =
  line :: int
  column :: int

record source_location =
  loc_start :: position
  loc_end :: position

text \<open>A token or a comment of the source: \<^verbatim>\<open>range\<close> and \<^verbatim>\<open>loc\<close> as the parser gives them.\<close>

record token =
  tok_comment :: bool
  tok_range :: "nat \<times> nat"
  tok_loc :: source_location

datatype node_type = T_ObjectExpression | T_ObjectPattern | T_Other

record key_node =
  key_name :: "string option"
  key_loc :: source_location

text \<open>
  A \<^verbatim>\<open>Property\<close> node. \<open>parent_type\<close> is \<^verbatim>\<open>node.parent.type\<close>, \<open>key_name\<close> is
  \<^verbatim>\<open>node.key.name\<close> (\<^const>\<open>None\<close> when the key has no such field). The helper
  \<^verbatim>\<open>astUtils.getStaticPropertyName\<close> lives in \<^verbatim>\<open>lib/util/ast-utils\<close>, which is not
  among the sources; its result on the node is the field \<open>static_name\<close>
  (\<^const>\<open>None\<close> for \<^verbatim>\<open>null\<close>), so every statement below holds whatever that helper
  computes.
\<close>

record property =
  parent_type :: node_type
  static_name :: "string option"
  key :: key_node
  node_range :: "nat \<times> nat"
  node_loc :: source_location

record source_code =
  src_text :: string
  src_tokens :: "token list"

text \<open>\<^verbatim>\<open>String.prototype.slice\<close> on indices that are natural numbers.\<close>

definition slice :: "string \<Rightarrow> nat \<Rightarrow> nat \<Rightarrow> string" where
  "slice s i j = take (j - i) (drop i s)"

text \<open>
  The host's \<^verbatim>\<open>SourceCode\<close> object: \<^verbatim>\<open>getText\<close> of a node, token or comment is the
  text of its range; \<^verbatim>\<open>getTokensBetween(left, right, {includeComments: true})\<close> are the
  tokens and comments that start at or after the end of \<open>left\<close> and end at or before
  the start of \<open>right\<close>; \<^verbatim>\<open>getCommentsBefore\<close> are the comments directly before a
  node, up to the nearest token that is not a comment.
\<close>

definition getText :: "source_code \<Rightarrow> nat \<times> nat \<Rightarrow> string" where
  "getText sc r = slice (src_text sc) (fst r) (snd r)"

definition getTokensBetween :: "source_code \<Rightarrow> property \<Rightarrow> property \<Rightarrow> token list" where
  "getTokensBetween sc left right =
     filter (\<lambda>t. snd (node_range left) \<le> fst (tok_range t) \<and>
                 snd (tok_range t) \<le> fst (node_range right)) (src_tokens sc)"

definition getCommentsBefore :: "source_code \<Rightarrow> nat \<times> nat \<Rightarrow> token list" where
  "getCommentsBefore sc r =
     rev (takeWhile tok_comment
       (rev (filter (\<lambda>t. snd (tok_range t) \<le> fst r) (src_tokens sc))))"

subsection \<open>\<^verbatim>\<open>getPropertyName\<close>\<close>

text \<open>
  \<^verbatim>\<open>node.key.name || null\<close>: a missing or empty \<^verbatim>\<open>name\<close> gives \<^verbatim>\<open>null\<close>.
\<close>

definition getPropertyName :: "property \<Rightarrow> string option" where
  "getPropertyName node =
     (case static_name node of
        Some staticName \<Rightarrow> Some staticName
      | None \<Rightarrow>
          (case key_name (key node) of
             None \<Rightarrow> None
           | Some n \<Rightarrow> if n = [] then None else Some n))"

subsection \<open>The comparators \<^verbatim>\<open>isValidOrders\<close>\<close>

text \<open>
  \<^verbatim>\<open>String.prototype.toLowerCase\<close> on strings whose code units are below 256. The
  capital letters among these code units are \<^verbatim>\<open>A\<close> to \<^verbatim>\<open>Z\<close> (0x41 to 0x5A) and the
  Latin-1 capitals 0xC0 to 0xDE without the multiplication sign 0xD7; each moves up by
  0x20, and every other code unit stays.
\<close>

definition toLowerCase_char :: "char \<Rightarrow> char" where
  "toLowerCase_char c =
     (let n = (of_char c :: nat) in
      if (0x41 \<le> n \<and> n \<le> 0x5A) \<or> (0xC0 \<le> n \<and> n \<le> 0xDE \<and> n \<noteq> 0xD7)
      then char_of (n + 0x20) else c)"

definition toLowerCase :: "string \<Rightarrow> string" where
  "toLowerCase s = map toLowerCase_char s"

text \<open>
  The comparison function \<^verbatim>\<open>naturalCompare\<close> comes from the package
  \<^verbatim>\<open>natural-compare\<close>; the table takes it as the parameter \<open>nc\<close>.
\<close>

definition asc :: "string \<Rightarrow> string \<Rightarrow> bool" where
  "asc a b = (a \<le> b)"

definition ascI :: "string \<Rightarrow> string \<Rightarrow> bool" where
  "ascI a b = (toLowerCase a \<le> toLowerCase b)"

definition ascN :: "(string \<Rightarrow> string \<Rightarrow> int) \<Rightarrow> string \<Rightarrow> string \<Rightarrow> bool" where
  "ascN nc a b = (nc a b \<le> 0)"

definition ascIN :: "(string \<Rightarrow> string \<Rightarrow> int) \<Rightarrow> string \<Rightarrow> string \<Rightarrow> bool" where
  "ascIN nc a b = (nc (toLowerCase a) (toLowerCase b) \<le> 0)"

definition desc :: "string \<Rightarrow> string \<Rightarrow> bool" where
  "desc a b = asc b a"

definition descI :: "string \<Rightarrow> string \<Rightarrow> bool" where
  "descI a b = ascI b a"

definition descN :: "(string \<Rightarrow> string \<Rightarrow> int) \<Rightarrow> string \<Rightarrow> string \<Rightarrow> bool" where
  "descN nc a b = ascN nc b a"

definition descIN :: "(string \<Rightarrow> string \<Rightarrow> int) \<Rightarrow> string \<Rightarrow> string \<Rightarrow> bool" where
  "descIN nc a b = ascIN nc b a"

text \<open>The table, looked up by the name of the comparator; a name it lacks gives \<^verbatim>\<open>undefined\<close>.\<close>

definition isValidOrders ::
  "(string \<Rightarrow> string \<Rightarrow> int) \<Rightarrow> string \<Rightarrow> (string \<Rightarrow> string \<Rightarrow> bool) option" where
  "isValidOrders nc name =
     (if name = ''asc'' then Some asc
      else if name = ''ascI'' then Some ascI
      else if name = ''ascN'' then Some (ascN nc)
      else if name = ''ascIN'' then Some (ascIN nc)
      else if name = ''desc'' then Some desc
      else if name = ''descI'' then Some descI
      else if name = ''descN'' then Some (descN nc)
      else if name = ''descIN'' then Some (descIN nc)
      else None)"

text \<open>
  Modelled from the spec: the package \<^verbatim>\<open>natural-compare\<close> is not among the sources.
  The spec's natural comparison is a string ordering that treats embedded numeric runs by
  numeric value rather than character by character, so that \<^verbatim>\<open>a2\<close> sorts before
  \<^verbatim>\<open>a10\<close>. The result is negative, zero or positive.
\<close>

definition isDigit :: "char \<Rightarrow> bool" where
  "isDigit c = (CHR ''0'' \<le> c \<and> c \<le> CHR ''9'')"

definition numericValue :: "string \<Rightarrow> nat" where
  "numericValue ds = foldl (\<lambda>n c. 10 * n + (of_char c - 48)) 0 ds"

function naturalCompare :: "string \<Rightarrow> string \<Rightarrow> int" where
  "naturalCompare [] [] = 0"
| "naturalCompare [] (y # ys) = - 1"
| "naturalCompare (x # xs) [] = 1"
| "naturalCompare (x # xs) (y # ys) =
     (if isDigit x \<and> isDigit y then
        (if numericValue (takeWhile isDigit (x # xs)) < numericValue (takeWhile isDigit (y # ys))
         then - 1
         else if numericValue (takeWhile isDigit (y # ys)) < numericValue (takeWhile isDigit (x # xs))
         then 1
         else naturalCompare (dropWhile isDigit xs) (dropWhile isDigit ys))
      else if x < y then - 1 else if y < x then 1 else naturalCompare xs ys)"
  by pat_completeness auto
termination
  by (relation "measure (\<lambda>(a, b). length a)")
     (auto simp: le_imp_less_Suc length_dropWhile_le)

subsection \<open>Options and \<^verbatim>\<open>create\<close>\<close>

text \<open>
  \<^verbatim>\<open>context.options\<close> as the rule's schema admits it: the first option is
  \<^verbatim>\<open>"asc"\<close> or \<^verbatim>\<open>"desc"\<close> or absent, the second an object of three optional
  booleans or absent.
\<close>

datatype order_keyword = Asc | Desc

fun keyword_string :: "order_keyword \<Rightarrow> string" where
  "keyword_string Asc = ''asc''"
| "keyword_string Desc = ''desc''"

record rule_options =
  opt_caseSensitive :: "bool option"
  opt_natural :: "bool option"
  opt_allowLineSeparatedGroups :: "bool option"

record context_options =
  options0 :: "order_keyword option"
  options1 :: "rule_options option"

text \<open>The variables that \<^verbatim>\<open>create\<close> computes once and its handlers close over.\<close>

record config =
  cfg_order :: string
  insensitive :: bool
  natual :: bool
  allowLineSeparatedGroups :: bool
  isValidOrder :: "(string \<Rightarrow> string \<Rightarrow> bool) option"

definition create :: "(string \<Rightarrow> string \<Rightarrow> int) \<Rightarrow> context_options \<Rightarrow> config" where
  "create nc opts =
     (let order' = (case options0 opts of None \<Rightarrow> ''asc'' | Some k \<Rightarrow> keyword_string k);
          options = options1 opts;
          insensitive' =
            ((case options of None \<Rightarrow> None | Some ob \<Rightarrow> opt_caseSensitive ob) = Some False);
          natual' =
            ((case options of None \<Rightarrow> None | Some ob \<Rightarrow> opt_natural ob) = Some True);
          allow' =
            ((case options of None \<Rightarrow> None | Some ob \<Rightarrow> opt_allowLineSeparatedGroups ob)
               = Some True)
      in \<lparr>cfg_order = order', insensitive = insensitive', natual = natual',
          allowLineSeparatedGroups = allow',
          isValidOrder =
            isValidOrders nc
              (order' @ (if insensitive' then ''I'' else '''') @
                 (if natual' then ''N'' else ''''))\<rparr>)"

subsection \<open>The report and its fix\<close>

text \<open>
  A fix operation as the host's fixer builds it: \<^verbatim>\<open>insertTextBefore\<close> inserts at the
  start of a range, \<^verbatim>\<open>remove\<close> replaces a range by the empty text,
  \<^verbatim>\<open>replaceText\<close> replaces a range by a text.
\<close>

record fix_object =
  fix_range :: "nat \<times> nat"
  fix_text :: string

definition insertTextBefore :: "nat \<times> nat \<Rightarrow> string \<Rightarrow> fix_object" where
  "insertTextBefore r t = \<lparr>fix_range = (fst r, fst r), fix_text = t\<rparr>"

definition remove :: "nat \<times> nat \<Rightarrow> fix_object" where
  "remove r = \<lparr>fix_range = r, fix_text = ''''\<rparr>"

definition replaceText :: "nat \<times> nat \<Rightarrow> string \<Rightarrow> fix_object" where
  "replaceText r t = \<lparr>fix_range = r, fix_text = t\<rparr>"

definition moveProperty :: "source_code \<Rightarrow> property \<Rightarrow> property \<Rightarrow> fix_object list" where
  "moveProperty sc fromNode toNode =
     (let prevText = getText sc (node_range fromNode);
          thisComments = getCommentsBefore sc (node_range fromNode)
      in concat (map (\<lambda>thisComment.
                   [insertTextBefore (node_range toNode)
                      (getText sc (tok_range thisComment) @ ''\<newline>''),
                    remove (tok_range thisComment)]) thisComments)
         @ [replaceText (node_range toNode) prevText])"

text \<open>
  The function \<^verbatim>\<open>fix\<close> of a report, for the current node and the \<^verbatim>\<open>prevNode\<close>
  read at the start of the handler; on \<^verbatim>\<open>null\<close> the fixer dereferences it and throws.
\<close>

definition fix_of :: "source_code \<Rightarrow> property \<Rightarrow> property option \<Rightarrow> error + fix_object list" where
  "fix_of sc node prevNode' =
     (case prevNode' of
        None \<Rightarrow> Inl TypeError
      | Some p \<Rightarrow> Inr (moveProperty sc node p @ moveProperty sc p node))"

text \<open>
  The message template with its placeholders filled from \<^verbatim>\<open>data\<close>:
  \<^verbatim>\<open>Expected object keys to be in {{natual}}{{insensitive}}{{order}}ending order. '{{thisName}}' should be before '{{prevName}}'.\<close>
\<close>

definition message :: "config \<Rightarrow> string \<Rightarrow> string \<Rightarrow> string" where
  "message cfg thisName prevName' =
     ''Expected object keys to be in '' @
     (if natual cfg then ''natural '' else '''') @
     (if insensitive cfg then ''insensitive '' else '''') @
     cfg_order cfg @ ''ending order. '' @
     [CHR 0x27] @ thisName @ [CHR 0x27] @ '' should be before '' @
     [CHR 0x27] @ prevName' @ [CHR 0x27] @ ''.''"

record report =
  rep_node :: property
  rep_loc :: source_location
  rep_message :: string
  rep_fix :: "error + fix_object list"

definition context_report ::
  "config \<Rightarrow> source_code \<Rightarrow> property \<Rightarrow> property option \<Rightarrow> string \<Rightarrow> string \<Rightarrow> report" where
  "context_report cfg sc node prevNode' thisName prevName' =
     \<lparr>rep_node = node, rep_loc = key_loc (key node),
      rep_message = message cfg thisName prevName',
      rep_fix = fix_of sc node prevNode'\<rparr>"

subsection \<open>The stack and the handlers\<close>

text \<open>
  One frame of \<^verbatim>\<open>stack\<close>; \<^verbatim>\<open>upper\<close> is the rest of the list, and the empty list
  is \<^verbatim>\<open>null\<close>. A new frame has no field \<^verbatim>\<open>prevBlankLine\<close>: reading it gives
  \<^verbatim>\<open>undefined\<close>, here \<^const>\<open>None\<close>.
\<close>

record frame =
  prevName :: "string option"
  prevNode :: "property option"
  prevBlankLine :: "bool option"

record state =
  stack :: "frame list"
  reports :: "report list"

definition initial :: state where
  "initial = \<lparr>stack = [], reports = []\<rparr>"

definition ObjectExpression :: "state \<Rightarrow> error + state" where
  "ObjectExpression s =
     Inr (s\<lparr>stack := \<lparr>prevName = None, prevNode = None, prevBlankLine = None\<rparr> # stack s\<rparr>)"

definition ObjectExpression_exit :: "state \<Rightarrow> error + state" where
  "ObjectExpression_exit s =
     (case stack s of
        [] \<Rightarrow> Inl TypeError
      | f # upper \<Rightarrow> Inr (s\<lparr>stack := upper\<rparr>))"

definition SpreadElement :: "node_type \<Rightarrow> state \<Rightarrow> error + state" where
  "SpreadElement parent s =
     (if parent = T_ObjectExpression then
        (case stack s of
           [] \<Rightarrow> Inl TypeError
         | f # upper \<Rightarrow> Inr (s\<lparr>stack := f\<lparr>prevName := None\<rparr> # upper\<rparr>))
      else Inr s)"

text \<open>
  The loop \<^verbatim>\<open>tokens.forEach\<close>: \<open>previousToken\<close> is \<^verbatim>\<open>tokens[index - 1]\<close>,
  \<^verbatim>\<open>undefined\<close> at the first token.
\<close>

fun forEach_token :: "token option \<Rightarrow> token list \<Rightarrow> bool \<Rightarrow> bool" where
  "forEach_token previousToken [] isBlank = isBlank"
| "forEach_token previousToken (t # ts) isBlank =
     forEach_token (Some t) ts
       (case previousToken of
          None \<Rightarrow> isBlank
        | Some p \<Rightarrow>
            if line (loc_start (tok_loc t)) - line (loc_end (tok_loc p)) > 1 then True
            else isBlank)"

text \<open>
  The value of \<^verbatim>\<open>isBlankLineBetweenNodes\<close> after the three checks. \<^verbatim>\<open>tokens\<close> is
  \<^verbatim>\<open>null\<close> when \<^verbatim>\<open>stack.prevNode\<close> is. An empty array is truthy, and reading
  \<^verbatim>\<open>loc\<close> of its missing last element throws.
\<close>

definition isBlankLineBetweenNodes :: "source_code \<Rightarrow> frame \<Rightarrow> property \<Rightarrow> error + bool" where
  "isBlankLineBetweenNodes sc f node =
     (let b0 = (prevBlankLine f = Some True) in
      case prevNode f of
        None \<Rightarrow> Inr b0
      | Some p \<Rightarrow>
          (let tokens = getTokensBetween sc p node;
               b1 = forEach_token None tokens b0
           in if \<not> b1 \<and> tokens = [] then Inl TypeError
              else
                (let b2 = (if \<not> b1 \<and>
                              line (loc_start (node_loc node)) -
                                line (loc_end (tok_loc (last tokens))) > 1
                           then True else b1)
                 in Inr (if \<not> b2 \<and>
                            line (loc_start (tok_loc (hd tokens))) -
                              line (loc_end (node_loc p)) > 1
                         then True else b2))))"

text \<open>
  The handler \<^verbatim>\<open>Property\<close>. The frame is updated before the early returns; the
  right-hand side \<^verbatim>\<open>node || prevNode\<close> is \<^verbatim>\<open>node\<close>, a node being truthy.
\<close>

definition Property :: "config \<Rightarrow> source_code \<Rightarrow> property \<Rightarrow> state \<Rightarrow> error + state" where
  "Property cfg sc node s =
     (if parent_type node = T_ObjectPattern then Inr s
      else
        (case stack s of
           [] \<Rightarrow> Inl TypeError
         | f # upper \<Rightarrow>
             (let prevName' = prevName f;
                  prevNode' = prevNode f;
                  thisName = getPropertyName node
              in case isBlankLineBetweenNodes sc f node of
                   Inl e \<Rightarrow> Inl e
                 | Inr isBlank \<Rightarrow>
                     (let f1 = f\<lparr>prevNode := Some node\<rparr>;
                          f2 = (case thisName of
                                  None \<Rightarrow> f1
                                | Some n \<Rightarrow> f1\<lparr>prevName := Some n, prevNode := Some node\<rparr>)
                      in case prevName' of
                           None \<Rightarrow> Inr (s\<lparr>stack := f2 # upper\<rparr>)
                         | Some pn \<Rightarrow>
                             (case thisName of
                                None \<Rightarrow> Inr (s\<lparr>stack := f2 # upper\<rparr>)
                              | Some tn \<Rightarrow>
                                  if allowLineSeparatedGroups cfg \<and> isBlank then
                                    Inr (s\<lparr>stack :=
                                           f2\<lparr>prevBlankLine := Some (thisName = None)\<rparr> # upper\<rparr>)
                                  else
                                    (case isValidOrder cfg of
                                       None \<Rightarrow> Inl TypeError
                                     | Some valid \<Rightarrow>
                                         if \<not> valid pn tn then
                                           Inr (s\<lparr>stack := f2 # upper,
                                                  reports := reports s @
                                                    [context_report cfg sc node prevNode' tn pn]\<rparr>)
                                         else Inr (s\<lparr>stack := f2 # upper\<rparr>)))))))"

subsection \<open>The traversal\<close>

text \<open>
  The host walks the tree and calls the handler registered for each node it enters or
  leaves. \<^verbatim>\<open>SpreadElement\<close> and \<^verbatim>\<open>ExperimentalSpreadProperty\<close> share one handler,
  which reads the type of the parent. An exception ends the walk.
\<close>

datatype event =
  EnterObjectExpression
| ExitObjectExpression
| VisitSpreadElement node_type
| VisitProperty property

fun handle :: "config \<Rightarrow> source_code \<Rightarrow> event \<Rightarrow> state \<Rightarrow> error + state" where
  "handle cfg sc EnterObjectExpression s = ObjectExpression s"
| "handle cfg sc ExitObjectExpression s = ObjectExpression_exit s"
| "handle cfg sc (VisitSpreadElement parent) s = SpreadElement parent s"
| "handle cfg sc (VisitProperty node) s = Property cfg sc node s"

fun traverse :: "config \<Rightarrow> source_code \<Rightarrow> event list \<Rightarrow> state \<Rightarrow> error + state" where
  "traverse cfg sc [] s = Inr s"
| "traverse cfg sc (e # es) s =
     (case handle cfg sc e s of
        Inl err \<Rightarrow> Inl err
      | Inr s' \<Rightarrow> traverse cfg sc es s')"

text \<open>
  The events of a subtree that hangs below an entry of a literal (its key and its value):
  every literal entered is left again, and an entry or a spread member at depth \<open>0\<close> does
  not belong to an object literal.
\<close>

fun subtree_events :: "nat \<Rightarrow> event list \<Rightarrow> bool" where
  "subtree_events d [] = (d = 0)"
| "subtree_events d (EnterObjectExpression # es) = subtree_events (Suc d) es"
| "subtree_events d (ExitObjectExpression # es) = (0 < d \<and> subtree_events (d - 1) es)"
| "subtree_events d (VisitSpreadElement parent # es) =
     ((0 < d \<or> parent \<noteq> T_ObjectExpression) \<and> subtree_events d es)"
| "subtree_events d (VisitProperty node # es) =
     ((0 < d \<or> parent_type node = T_ObjectPattern) \<and> subtree_events d es)"

subsection \<open>Applying a fix\<close>

text \<open>
  What the host does with the list a \<^verbatim>\<open>fix\<close> function returns: it sorts the fix objects
  by range, refuses overlapping ones, and merges them into one replacement of the text from
  the first start to the last end, keeping the original text between them. \<open>lastPos\<close>
  starts at \<^verbatim>\<open>Number.MIN_SAFE_INTEGER\<close>.
\<close>

definition compareFixesByRange_key :: "fix_object \<Rightarrow> nat \<times> nat" where
  "compareFixesByRange_key f = (fst (fix_range f), snd (fix_range f))"

fun mergeFixes_loop ::
  "string \<Rightarrow> nat \<Rightarrow> int \<Rightarrow> string \<Rightarrow> fix_object list \<Rightarrow> error + (string \<times> int)" where
  "mergeFixes_loop originalText start lastPos txt [] = Inr (txt, lastPos)"
| "mergeFixes_loop originalText start lastPos txt (f # fs) =
     (if \<not> lastPos \<le> int (fst (fix_range f)) then Inl AssertionError
      else mergeFixes_loop originalText start (int (snd (fix_range f)))
             (txt @ slice originalText (nat (max (int start) lastPos)) (fst (fix_range f))
                  @ fix_text f) fs)"

definition mergeFixes :: "string \<Rightarrow> fix_object list \<Rightarrow> error + fix_object option" where
  "mergeFixes originalText fixes =
     (case sort_key compareFixesByRange_key fixes of
        [] \<Rightarrow> Inr None
      | [f] \<Rightarrow> Inr (Some f)
      | f # g # fs \<Rightarrow>
          (let start = fst (fix_range f);
               end' = snd (fix_range (last (g # fs)))
           in case mergeFixes_loop originalText start (- (2 ^ 53 - 1)) '''' (f # g # fs) of
                Inl e \<Rightarrow> Inl e
              | Inr (txt, lastPos) \<Rightarrow>
                  Inr (Some \<lparr>fix_range = (start, end'),
                             fix_text = txt @ slice originalText (nat (max (int start) lastPos)) end'\<rparr>)))"

text \<open>
  The host's pass over the fixes of the reports of a file: sorted by range, each fix is
  applied to the original text unless it starts at or before the end of the fix applied
  last, or its range is negative; such a fix is dropped. \<open>lastPos\<close> starts at
  \<^verbatim>\<open>Number.NEGATIVE_INFINITY\<close>, here \<^const>\<open>None\<close>. The text has no byte order mark.
\<close>

fun attemptFixes ::
  "string \<Rightarrow> nat option \<Rightarrow> string \<Rightarrow> fix_object list \<Rightarrow> string \<times> nat option" where
  "attemptFixes txt lastPos output [] = (output, lastPos)"
| "attemptFixes txt lastPos output (f # fs) =
     (let start = fst (fix_range f); end' = snd (fix_range f) in
      if (case lastPos of None \<Rightarrow> False | Some l \<Rightarrow> start \<le> l) \<or> end' < start
      then attemptFixes txt lastPos output fs
      else attemptFixes txt (Some end')
             (output @ slice txt (case lastPos of None \<Rightarrow> 0 | Some l \<Rightarrow> l) start @ fix_text f)
             fs)"

definition applyFixes :: "string \<Rightarrow> fix_object list \<Rightarrow> string" where
  "applyFixes txt fixes =
     (if fixes = [] then txt
      else
        (case attemptFixes txt None '''' (sort_key compareFixesByRange_key fixes) of
           (output, lastPos) \<Rightarrow>
             output @ drop (case lastPos of None \<Rightarrow> 0 | Some l \<Rightarrow> l) txt))"

text \<open>
  The fix the host keeps for a report: the merge of what its \<^verbatim>\<open>fix\<close> function returned,
  or none when that list is empty. An exception of the \<^verbatim>\<open>fix\<close> function or of the merge
  ends the run.
\<close>

definition report_fix :: "string \<Rightarrow> error + fix_object list \<Rightarrow> error + fix_object option" where
  "report_fix txt edit =
     (case edit of
        Inl e \<Rightarrow> Inl e
      | Inr fixes \<Rightarrow> mergeFixes txt fixes)"

text \<open>The source text after the edit of one report alone.\<close>

definition applyEdit :: "string \<Rightarrow> error + fix_object list \<Rightarrow> error + string" where
  "applyEdit txt edit =
     (case report_fix txt edit of
        Inl e \<Rightarrow> Inl e
      | Inr None \<Rightarrow> Inr txt
      | Inr (Some f) \<Rightarrow> Inr (applyFixes txt [f]))"

subsection \<open>Building nodes and tokens from a source text\<close>

text \<open>
  The parser's \<^verbatim>\<open>loc\<close> of an offset: lines count from \<open>1\<close>, columns from \<open>0\<close>. Among
  code units below 256 a line ends after a line feed, and after a carriage return that no
  line feed follows. \<open>line_starts i txt\<close> lists the offsets at which a new line starts, for
  a text that begins at offset \<open>i\<close>.
\<close>

fun line_starts :: "nat \<Rightarrow> string \<Rightarrow> nat list" where
  "line_starts i [] = []"
| "line_starts i (c # cs) =
     (if c = CHR 0x0A \<or> (c = CHR 0x0D \<and> (cs = [] \<or> hd cs \<noteq> CHR 0x0A))
      then Suc i # line_starts (Suc i) cs
      else line_starts (Suc i) cs)"

definition position_at :: "string \<Rightarrow> nat \<Rightarrow> position" where
  "position_at txt n =
     (let starts = filter (\<lambda>k. k \<le> n) (line_starts 0 txt) in
      \<lparr>line = 1 + int (length starts),
       column = int (n - (if starts = [] then 0 else last starts))\<rparr>)"

definition loc_of :: "string \<Rightarrow> nat \<times> nat \<Rightarrow> source_location" where
  "loc_of txt r = \<lparr>loc_start = position_at txt (fst r), loc_end = position_at txt (snd r)\<rparr>"

definition token_at :: "string \<Rightarrow> nat \<times> nat \<Rightarrow> token" where
  "token_at txt r = \<lparr>tok_comment = False, tok_range = r, tok_loc = loc_of txt r\<rparr>"

definition comment_at :: "string \<Rightarrow> nat \<times> nat \<Rightarrow> token" where
  "comment_at txt r = \<lparr>tok_comment = True, tok_range = r, tok_loc = loc_of txt r\<rparr>"

text \<open>
  An entry whose key is a plain identifier, not computed: its static name and the name of
  its key are the text of the key.
\<close>

definition identifier_property ::
  "string \<Rightarrow> node_type \<Rightarrow> nat \<times> nat \<Rightarrow> nat \<times> nat \<Rightarrow> property" where
  "identifier_property txt parent k r =
     \<lparr>parent_type = parent,
      static_name = Some (slice txt (fst k) (snd k)),
      key = \<lparr>key_name = Some (slice txt (fst k) (snd k)), key_loc = loc_of txt k\<rparr>,
      node_range = r,
      node_loc = loc_of txt r\<rparr>"

text \<open>
  An entry with no stable name: a computed key that is neither an identifier nor a literal,
  so that the static name is \<^verbatim>\<open>null\<close> and the key has no field \<^verbatim>\<open>name\<close>.
\<close>

definition computed_property ::
  "string \<Rightarrow> node_type \<Rightarrow> nat \<times> nat \<Rightarrow> nat \<times> nat \<Rightarrow> property" where
  "computed_property txt parent k r =
     \<lparr>parent_type = parent,
      static_name = None,
      key = \<lparr>key_name = None, key_loc = loc_of txt k\<rparr>,
      node_range = r,
      node_loc = loc_of txt r\<rparr>"

subsection \<open>A whole walk and its reports\<close>

text \<open>
  The reports of a walk that starts with \<^verbatim>\<open>stack = null\<close>, and the source text after
  the host's pass over the fixes of these reports.
\<close>

definition run :: "config \<Rightarrow> source_code \<Rightarrow> event list \<Rightarrow> error + report list" where
  "run cfg sc es =
     (case traverse cfg sc es initial of Inl e \<Rightarrow> Inl e | Inr s \<Rightarrow> Inr (reports s))"

fun report_fixes :: "string \<Rightarrow> report list \<Rightarrow> error + fix_object list" where
  "report_fixes txt [] = Inr []"
| "report_fixes txt (r # rs) =
     (case report_fix txt (rep_fix r) of
        Inl e \<Rightarrow> Inl e
      | Inr None \<Rightarrow> report_fixes txt rs
      | Inr (Some f) \<Rightarrow>
          (case report_fixes txt rs of
             Inl e \<Rightarrow> Inl e
           | Inr fs \<Rightarrow> Inr (f # fs)))"

definition applyEdits :: "string \<Rightarrow> report list \<Rightarrow> error + string" where
  "applyEdits txt rs =
     (case report_fixes txt rs of
        Inl e \<Rightarrow> Inl e
      | Inr fs \<Rightarrow> Inr (applyFixes txt fs))"

definition run_and_fix :: "config \<Rightarrow> source_code \<Rightarrow> event list \<Rightarrow> error + string" where
  "run_and_fix cfg sc es =
     (case run cfg sc es of Inl e \<Rightarrow> Inl e | Inr rs \<Rightarrow> applyEdits (src_text sc) rs)"

subsection \<open>Notions of the specification\<close>

text \<open>
  The comparator the specification selects from the direction, the case sensitivity and the
  natural mode.
\<close>

definition selected ::
  "(string \<Rightarrow> string \<Rightarrow> int) \<Rightarrow> order_keyword \<Rightarrow> bool \<Rightarrow> bool \<Rightarrow> string \<Rightarrow> string \<Rightarrow> bool" where
  "selected nc k i n =
     (case k of
        Asc \<Rightarrow> if i then (if n then ascIN nc else ascI) else (if n then ascN nc else asc)
      | Desc \<Rightarrow> if i then (if n then descIN nc else descI) else (if n then descN nc else desc))"

text \<open>
  The specification's qualifying blank line between the previous entry and the current one,
  given the tokens and comments between them: some adjacent pair of them is separated by
  more than one line break, or the current entry starts more than one line break after the
  last of them, or the first of them starts more than one line break after the previous
  entry ends.
\<close>

definition more_than_one_line_break :: "source_location \<Rightarrow> source_location \<Rightarrow> bool" where
  "more_than_one_line_break before after =
     (line (loc_start after) - line (loc_end before) > 1)"

definition qualifying_blank_line :: "property \<Rightarrow> token list \<Rightarrow> property \<Rightarrow> bool" where
  "qualifying_blank_line prev tokens cur =
     ((\<exists>(a, b) \<in> set (zip tokens (tl tokens)).
          more_than_one_line_break (tok_loc a) (tok_loc b)) \<or>
      more_than_one_line_break (tok_loc (last tokens)) (node_loc cur) \<or>
      more_than_one_line_break (node_loc prev) (tok_loc (hd tokens)))"

text \<open>
  The comments directly before an entry, as the source text lays them out: each comment with
  the text that follows it, up to the next comment or up to the entry. \<open>layout\<close> is the
  text from the first comment to the entry, \<open>comment_ranges\<close> are the ranges of the
  comments when the first one starts at the given offset, \<open>gaps\<close> is what is left of the
  layout without the comments, and \<open>moved\<close> is the text of the comments, each followed by a
  line feed.
\<close>

definition layout :: "(string \<times> string) list \<Rightarrow> string" where
  "layout cs = concat (map (\<lambda>(c, g). c @ g) cs)"

definition gaps :: "(string \<times> string) list \<Rightarrow> string" where
  "gaps cs = concat (map snd cs)"

definition moved :: "(string \<times> string) list \<Rightarrow> string" where
  "moved cs = concat (map (\<lambda>(c, g). c @ [CHR 0x0A]) cs)"

fun comment_ranges :: "nat \<Rightarrow> (string \<times> string) list \<Rightarrow> (nat \<times> nat) list" where
  "comment_ranges off [] = []"
| "comment_ranges off ((c, g) # cs) =
     (off, off + length c) # comment_ranges (off + length c + length g) cs"

text \<open>
  The fix objects that \<^verbatim>\<open>moveProperty\<close> builds for such comments, in the order in which
  it builds them, and apart: the removals of the comments, and the insertions of their
  texts before the target.
\<close>

fun comment_moves :: "nat \<times> nat \<Rightarrow> nat \<Rightarrow> (string \<times> string) list \<Rightarrow> fix_object list" where
  "comment_moves t off [] = []"
| "comment_moves t off ((c, g) # cs) =
     insertTextBefore t (c @ [CHR 0x0A]) # remove (off, off + length c) #
     comment_moves t (off + length c + length g) cs"

fun removals :: "nat \<Rightarrow> (string \<times> string) list \<Rightarrow> fix_object list" where
  "removals off [] = []"
| "removals off ((c, g) # cs) =
     remove (off, off + length c) # removals (off + length c + length g) cs"

definition inserts :: "nat \<times> nat \<Rightarrow> (string \<times> string) list \<Rightarrow> fix_object list" where
  "inserts t cs = map (\<lambda>(c, g). insertTextBefore t (c @ [CHR 0x0A])) cs"

text \<open>
  A list of fix objects is chained from a position when each starts at or after the end of
  the one before it, the first at or after the position, and none has a negative range.
  \<open>patched\<close> is the text such a list gives from the position to the end of its last fix:
  the original text between the fixes, and the text of each fix in place of its range.
\<close>

fun chained :: "nat \<Rightarrow> fix_object list \<Rightarrow> bool" where
  "chained pos [] = True"
| "chained pos (f # fs) =
     (pos \<le> fst (fix_range f) \<and> fst (fix_range f) \<le> snd (fix_range f) \<and>
      chained (snd (fix_range f)) fs)"

fun patched :: "string \<Rightarrow> nat \<Rightarrow> fix_object list \<Rightarrow> string" where
  "patched txt pos [] = []"
| "patched txt pos (f # fs) =
     slice txt pos (fst (fix_range f)) @ fix_text f @ patched txt (snd (fix_range f)) fs"

text \<open>
  What every frame of a walk satisfies: the carried flag is not \<^verbatim>\<open>true\<close>, and a frame
  that holds a previous name holds a previous node.
\<close>

definition frame_ok :: "frame \<Rightarrow> bool" where
  "frame_ok f = (prevBlankLine f \<noteq> Some True \<and> (prevName f = None \<or> prevNode f \<noteq> None))"

subsection \<open>Example sources\<close>

text \<open>
  Each example is a source text, the ranges of its tokens, its entries, and the events of
  the walk over it.
\<close>

definition source_at :: "string \<Rightarrow> (nat \<times> nat) list \<Rightarrow> source_code" where
  "source_at txt rs = \<lparr>src_text = txt, src_tokens = map (token_at txt) rs\<rparr>"

definition entry :: "string \<Rightarrow> nat \<times> nat \<Rightarrow> nat \<times> nat \<Rightarrow> property" where
  "entry txt k r = identifier_property txt T_ObjectExpression k r"

definition default_asc :: context_options where
  "default_asc = \<lparr>options0 = Some Asc, options1 = None\<rparr>"

definition grouping_on :: context_options where
  "grouping_on =
     \<lparr>options0 = None,
      options1 = Some \<lparr>opt_caseSensitive = None, opt_natural = None,
                        opt_allowLineSeparatedGroups = Some True\<rparr>\<rparr>"

text \<open>\<^verbatim>\<open>{b: 1, a: 2}\<close>\<close>

definition ba_text :: string where
  "ba_text = ''{b: 1, a: 2}''"

definition ba_source :: source_code where
  "ba_source = source_at ba_text
     [(0, 1), (1, 2), (2, 3), (4, 5), (5, 6), (7, 8), (8, 9), (10, 11), (11, 12)]"

definition ba_b :: property where
  "ba_b = entry ba_text (1, 2) (1, 5)"

definition ba_a :: property where
  "ba_a = entry ba_text (7, 8) (7, 11)"

definition ba_events :: "event list" where
  "ba_events = [EnterObjectExpression, VisitProperty ba_b, VisitProperty ba_a, ExitObjectExpression]"

text \<open>\<^verbatim>\<open>{...x, b: 1, a: 2}\<close>\<close>

definition spread_first_text :: string where
  "spread_first_text = ''{...x, b: 1, a: 2}''"

definition spread_first_source :: source_code where
  "spread_first_source = source_at spread_first_text
     [(0, 1), (1, 4), (4, 5), (5, 6), (7, 8), (8, 9), (10, 11), (11, 12), (13, 14), (14, 15),
      (16, 17), (17, 18)]"

definition spread_first_events :: "event list" where
  "spread_first_events =
     [EnterObjectExpression, VisitSpreadElement T_ObjectExpression,
      VisitProperty (entry spread_first_text (7, 8) (7, 11)),
      VisitProperty (entry spread_first_text (13, 14) (13, 17)), ExitObjectExpression]"

text \<open>\<^verbatim>\<open>{b: 1, ...x, a: 2}\<close>\<close>

definition spread_between_text :: string where
  "spread_between_text = ''{b: 1, ...x, a: 2}''"

definition spread_between_source :: source_code where
  "spread_between_source = source_at spread_between_text
     [(0, 1), (1, 2), (2, 3), (4, 5), (5, 6), (7, 10), (10, 11), (11, 12), (13, 14), (14, 15),
      (16, 17), (17, 18)]"

definition spread_between_events :: "event list" where
  "spread_between_events =
     [EnterObjectExpression, VisitProperty (entry spread_between_text (1, 2) (1, 5)),
      VisitSpreadElement T_ObjectExpression,
      VisitProperty (entry spread_between_text (13, 14) (13, 17)), ExitObjectExpression]"

text \<open>\<^verbatim>\<open>{ b: 1, a: 2 }\<close>, and the same entries with one blank line between them\<close>

definition spaced_text :: string where
  "spaced_text = ''{ b: 1, a: 2 }''"

definition spaced_source :: source_code where
  "spaced_source = source_at spaced_text
     [(0, 1), (2, 3), (3, 4), (5, 6), (6, 7), (8, 9), (9, 10), (11, 12), (13, 14)]"

definition spaced_b :: property where
  "spaced_b = entry spaced_text (2, 3) (2, 6)"

definition spaced_a :: property where
  "spaced_a = entry spaced_text (8, 9) (8, 12)"

definition spaced_events :: "event list" where
  "spaced_events =
     [EnterObjectExpression, VisitProperty spaced_b, VisitProperty spaced_a,
      ExitObjectExpression]"

definition blank_line_text :: string where
  "blank_line_text = ''{ b: 1,'' @ [CHR 0x0A, CHR 0x0A] @ '' a: 2 }''"

definition blank_line_source :: source_code where
  "blank_line_source = source_at blank_line_text
     [(0, 1), (2, 3), (3, 4), (5, 6), (6, 7), (10, 11), (11, 12), (13, 14), (15, 16)]"

definition blank_line_events :: "event list" where
  "blank_line_events =
     [EnterObjectExpression, VisitProperty (entry blank_line_text (2, 3) (2, 6)),
      VisitProperty (entry blank_line_text (10, 11) (10, 14)), ExitObjectExpression]"

text \<open>\<^verbatim>\<open>{b: 1, c: 2, a: 3}\<close>; the ranges fit every text of the same layout.\<close>

definition three_text :: string where
  "three_text = ''{b: 1, c: 2, a: 3}''"

definition three_source :: "string \<Rightarrow> source_code" where
  "three_source txt = source_at txt
     [(0, 1), (1, 2), (2, 3), (4, 5), (5, 6), (7, 8), (8, 9), (10, 11), (11, 12), (13, 14),
      (14, 15), (16, 17), (17, 18)]"

definition three_entries :: "string \<Rightarrow> property list" where
  "three_entries txt =
     [entry txt (1, 2) (1, 5), entry txt (7, 8) (7, 11), entry txt (13, 14) (13, 17)]"

definition three_events :: "string \<Rightarrow> event list" where
  "three_events txt =
     EnterObjectExpression # map VisitProperty (three_entries txt) @ [ExitObjectExpression]"

text \<open>\<^verbatim>\<open>{b: 1, [x+y]: 2, a: 3}\<close>: the second entry has no stable name.\<close>

definition unnamed_text :: string where
  "unnamed_text = ''{b: 1, [x+y]: 2, a: 3}''"

definition unnamed_source :: source_code where
  "unnamed_source = source_at unnamed_text
     [(0, 1), (1, 2), (2, 3), (4, 5), (5, 6), (7, 8), (8, 9), (9, 10), (10, 11), (11, 12),
      (12, 13), (14, 15), (15, 16), (17, 18), (18, 19), (20, 21), (21, 22)]"

definition unnamed_b :: property where
  "unnamed_b = entry unnamed_text (1, 2) (1, 5)"

definition unnamed_computed :: property where
  "unnamed_computed = computed_property unnamed_text T_ObjectExpression (8, 11) (7, 15)"

definition unnamed_a :: property where
  "unnamed_a = entry unnamed_text (17, 18) (17, 21)"

definition unnamed_events :: "event list" where
  "unnamed_events =
     [EnterObjectExpression, VisitProperty unnamed_b, VisitProperty unnamed_computed,
      VisitProperty unnamed_a, ExitObjectExpression]"

text \<open>\<^verbatim>\<open>{/* y */ b: 1, /* x */ a: 2}\<close>: each entry has a comment directly before it.\<close>

definition commented_text :: string where
  "commented_text = ''{/* y */ b: 1, /* x */ a: 2}''"

definition commented_source :: source_code where
  "commented_source =
     \<lparr>src_text = commented_text,
      src_tokens =
        [token_at commented_text (0, 1), comment_at commented_text (1, 8),
         token_at commented_text (9, 10), token_at commented_text (10, 11),
         token_at commented_text (12, 13), token_at commented_text (13, 14),
         comment_at commented_text (15, 22), token_at commented_text (23, 24),
         token_at commented_text (24, 25), token_at commented_text (26, 27),
         token_at commented_text (27, 28)]\<rparr>"

definition commented_b :: property where
  "commented_b = entry commented_text (9, 10) (9, 13)"

definition commented_a :: property where
  "commented_a = entry commented_text (23, 24) (23, 27)"

definition commented_events :: "event list" where
  "commented_events =
     [EnterObjectExpression, VisitProperty commented_b, VisitProperty commented_a,
      ExitObjectExpression]"

text \<open>\<^verbatim>\<open>const {b, a} = obj;\<close>: two shorthand entries of a pattern, no object literal.\<close>

definition pattern_text :: string where
  "pattern_text = ''const {b, a} = obj;''"

definition pattern_source :: source_code where
  "pattern_source = source_at pattern_text
     [(0, 5), (6, 7), (7, 8), (8, 9), (10, 11), (11, 12), (13, 14), (15, 18), (18, 19)]"

definition pattern_events :: "event list" where
  "pattern_events =
     [VisitProperty (identifier_property pattern_text T_ObjectPattern (7, 8) (7, 8)),
      VisitProperty (identifier_property pattern_text T_ObjectPattern (10, 11) (10, 11))]"

section \<open>Lemmas\<close>

subsection \<open>The comparators\<close>

lemma isValidOrders_names:
  "isValidOrders nc ''asc'' = Some asc"
  "isValidOrders nc ''ascI'' = Some ascI"
  "isValidOrders nc ''ascN'' = Some (ascN nc)"
  "isValidOrders nc ''ascIN'' = Some (ascIN nc)"
  "isValidOrders nc ''desc'' = Some desc"
  "isValidOrders nc ''descI'' = Some descI"
  "isValidOrders nc ''descN'' = Some (descN nc)"
  "isValidOrders nc ''descIN'' = Some (descIN nc)"
  by (simp_all add: isValidOrders_def)

lemma create_fields:
  "cfg_order (create nc opts) =
     (case options0 opts of None \<Rightarrow> ''asc'' | Some k \<Rightarrow> keyword_string k)"
  "insensitive (create nc opts) =
     (\<exists>ob. options1 opts = Some ob \<and> opt_caseSensitive ob = Some False)"
  "natual (create nc opts) = (\<exists>ob. options1 opts = Some ob \<and> opt_natural ob = Some True)"
  "allowLineSeparatedGroups (create nc opts) =
     (\<exists>ob. options1 opts = Some ob \<and> opt_allowLineSeparatedGroups ob = Some True)"
  by (auto simp: create_def Let_def split: option.splits)

lemma create_isValidOrder:
  "isValidOrder (create nc opts) =
     Some (selected nc (case options0 opts of None \<Rightarrow> Asc | Some k \<Rightarrow> k)
            (insensitive (create nc opts)) (natual (create nc opts)))"
  by (cases "options0 opts"; cases "insensitive (create nc opts)";
      cases "natual (create nc opts)")
     (auto simp: create_def Let_def selected_def isValidOrders_names
           split: option.splits order_keyword.splits)

lemma selected_flip: "selected nc Desc i n a b = selected nc Asc i n b a"
  by (simp add: selected_def desc_def descI_def descN_def descIN_def)

lemma create_default_asc:
  "isValidOrder (create nc default_asc) = Some asc"
  "\<not> allowLineSeparatedGroups (create nc default_asc)"
  "cfg_order (create nc default_asc) = ''asc''"
  "\<not> insensitive (create nc default_asc)"
  "\<not> natual (create nc default_asc)"
  by (simp_all add: create_isValidOrder create_fields selected_def default_asc_def)

subsection \<open>The blank-line detection\<close>

lemma forEach_token_Some:
  "forEach_token (Some p) ts b =
     (b \<or> (\<exists>(x, y) \<in> set (zip (p # ts) ts).
              more_than_one_line_break (tok_loc x) (tok_loc y)))"
  by (induction ts arbitrary: p b) (auto simp: more_than_one_line_break_def)

lemma forEach_token_None:
  "forEach_token None ts b =
     (b \<or> (\<exists>(x, y) \<in> set (zip ts (tl ts)).
              more_than_one_line_break (tok_loc x) (tok_loc y)))"
  by (cases ts) (auto simp: forEach_token_Some)

lemma isBlankLineBetweenNodes_no_prevNode:
  "prevNode f = None \<Longrightarrow> isBlankLineBetweenNodes sc f node = Inr (prevBlankLine f = Some True)"
  by (simp add: isBlankLineBetweenNodes_def)

lemma isBlankLineBetweenNodes_tokens:
  assumes "prevNode f = Some p" and "getTokensBetween sc p node \<noteq> []"
  shows "isBlankLineBetweenNodes sc f node =
           Inr (prevBlankLine f = Some True \<or>
                qualifying_blank_line p (getTokensBetween sc p node) node)"
  using assms
  by (auto simp: isBlankLineBetweenNodes_def Let_def forEach_token_None
                 qualifying_blank_line_def more_than_one_line_break_def)

lemma isBlankLineBetweenNodes_gap:
  assumes "prevNode f = Some p" and "getTokensBetween sc p node \<noteq> []"
    and "prevBlankLine f \<noteq> Some True"
  shows "isBlankLineBetweenNodes sc f node =
           Inr (qualifying_blank_line p (getTokensBetween sc p node) node)"
  using assms by (simp add: isBlankLineBetweenNodes_tokens)

subsection \<open>One call of the handler \<^verbatim>\<open>Property\<close>\<close>

lemma Property_pattern:
  "parent_type node = T_ObjectPattern \<Longrightarrow> Property cfg sc node s = Inr s"
  by (simp add: Property_def)

lemma Property_Inr_stack:
  assumes "Property cfg sc node s = Inr s'" and "parent_type node \<noteq> T_ObjectPattern"
  shows "\<exists>f upper f'. stack s = f # upper \<and> stack s' = f' # upper \<and>
           prevNode f' = Some node \<and>
           prevName f' = (case getPropertyName node of None \<Rightarrow> prevName f | Some n \<Rightarrow> Some n) \<and>
           (prevBlankLine f' = prevBlankLine f \<or> prevBlankLine f' = Some False)"
  using assms
  by (auto simp: Property_def Let_def split: list.splits sum.splits option.splits if_splits)

lemma Property_unnamed:
  assumes "stack s = f # upper" and "parent_type node \<noteq> T_ObjectPattern"
    and "isBlankLineBetweenNodes sc f node = Inr blank"
    and "getPropertyName node = None"
  shows "Property cfg sc node s = Inr (s\<lparr>stack := f\<lparr>prevNode := Some node\<rparr> # upper\<rparr>)"
  using assms by (simp add: Property_def Let_def split: option.splits)

lemma Property_first_name:
  assumes "stack s = f # upper" and "parent_type node \<noteq> T_ObjectPattern"
    and "isBlankLineBetweenNodes sc f node = Inr blank"
    and "prevName f = None" and "getPropertyName node = Some tn"
  shows "Property cfg sc node s =
           Inr (s\<lparr>stack := f\<lparr>prevNode := Some node, prevName := Some tn\<rparr> # upper\<rparr>)"
  using assms by (simp add: Property_def Let_def)

lemma Property_compared:
  assumes "stack s = f # upper" and "parent_type node \<noteq> T_ObjectPattern"
    and "isBlankLineBetweenNodes sc f node = Inr blank"
    and "prevName f = Some pn" and "getPropertyName node = Some tn"
    and "isValidOrder cfg = Some valid"
  shows "\<exists>s'. Property cfg sc node s = Inr s' \<and>
           reports s' =
             (if allowLineSeparatedGroups cfg \<and> blank then reports s
              else if valid pn tn then reports s
              else reports s @ [context_report cfg sc node (prevNode f) tn pn])"
  using assms by (simp add: Property_def Let_def)

subsection \<open>The frames of a walk\<close>

lemma handle_frame_ok:
  assumes "handle cfg sc e s = Inr s'" and "\<forall>f \<in> set (stack s). frame_ok f"
  shows "\<forall>f \<in> set (stack s'). frame_ok f"
proof (cases e)
  case EnterObjectExpression
  with assms show ?thesis by (auto simp: ObjectExpression_def frame_ok_def)
next
  case ExitObjectExpression
  with assms show ?thesis by (auto simp: ObjectExpression_exit_def split: list.splits)
next
  case (VisitSpreadElement parent)
  with assms show ?thesis
    by (auto simp: SpreadElement_def frame_ok_def split: list.splits if_splits)
next
  case (VisitProperty node)
  show ?thesis
  proof (cases "parent_type node = T_ObjectPattern")
    case True
    with assms VisitProperty show ?thesis by (simp add: Property_pattern)
  next
    case False
    from assms(1) VisitProperty have "Property cfg sc node s = Inr s'" by simp
    from Property_Inr_stack[OF this False] obtain f upper f' where
      st: "stack s = f # upper" "stack s' = f' # upper" "prevNode f' = Some node"
      "prevBlankLine f' = prevBlankLine f \<or> prevBlankLine f' = Some False"
      by blast
    with assms(2) have "frame_ok f'" by (auto simp: frame_ok_def)
    with st assms(2) show ?thesis by auto
  qed
qed

lemma traverse_frame_ok:
  "traverse cfg sc es s = Inr s' \<Longrightarrow> \<forall>f \<in> set (stack s). frame_ok f \<Longrightarrow>
   \<forall>f \<in> set (stack s'). frame_ok f"
proof (induction es arbitrary: s)
  case Nil
  then show ?case by simp
next
  case (Cons e es)
  from Cons.prems(1) obtain s1 where
    h: "handle cfg sc e s = Inr s1" and t: "traverse cfg sc es s1 = Inr s'"
    by (auto split: sum.splits)
  from handle_frame_ok[OF h Cons.prems(2)] Cons.IH[OF t] show ?case by blast
qed

lemma traverse_initial_frame_ok:
  "traverse cfg sc es initial = Inr s \<Longrightarrow> f \<in> set (stack s) \<Longrightarrow> frame_ok f"
  using traverse_frame_ok[of cfg sc es initial s] by (simp add: initial_def)

text \<open>The events of a subtree leave the frames they start from as they are.\<close>

lemma handle_keeps_lower_frames:
  assumes "handle cfg sc e s = Inr s'" and "0 < d" and "d \<le> length (stack s)"
    and "e \<noteq> EnterObjectExpression" and "e \<noteq> ExitObjectExpression"
  shows "drop d (stack s') = drop d (stack s) \<and> length (stack s') = length (stack s)"
proof (cases e)
  case (VisitSpreadElement parent)
  with assms show ?thesis
    by (cases d) (auto simp: SpreadElement_def split: list.splits if_splits)
next
  case (VisitProperty node)
  show ?thesis
  proof (cases "parent_type node = T_ObjectPattern")
    case True
    with assms VisitProperty show ?thesis by (simp add: Property_pattern)
  next
    case False
    from assms(1) VisitProperty have "Property cfg sc node s = Inr s'" by simp
    from Property_Inr_stack[OF this False] obtain f upper f' where
      "stack s = f # upper" "stack s' = f' # upper" by blast
    with assms(2) show ?thesis by (cases d) auto
  qed
qed (use assms in auto)

lemma subtree_events_stack:
  "subtree_events d es \<Longrightarrow> traverse cfg sc es s = Inr s' \<Longrightarrow> d \<le> length (stack s) \<Longrightarrow>
   stack s' = drop d (stack s)"
proof (induction es arbitrary: d s)
  case Nil
  then show ?case by simp
next
  case (Cons e es)
  from Cons.prems(2) obtain s1 where
    h: "handle cfg sc e s = Inr s1" and t: "traverse cfg sc es s1 = Inr s'"
    by (auto split: sum.splits)
  show ?case
  proof (cases e)
    case EnterObjectExpression
    with h have s1: "stack s1 = \<lparr>prevName = None, prevNode = None, prevBlankLine = None\<rparr> # stack s"
      by (auto simp: ObjectExpression_def)
    from Cons.prems(1) EnterObjectExpression have "subtree_events (Suc d) es" by simp
    from Cons.IH[OF this t] s1 Cons.prems(3) show ?thesis by simp
  next
    case ExitObjectExpression
    with Cons.prems(1) have d: "0 < d" and sub: "subtree_events (d - 1) es" by simp_all
    from h ExitObjectExpression obtain f where s1: "stack s = f # stack s1"
      by (auto simp: ObjectExpression_exit_def split: list.splits)
    from Cons.IH[OF sub t] s1 Cons.prems(3) d show ?thesis
      by (cases d) auto
  next
    case (VisitSpreadElement parent)
    with Cons.prems(1) have c: "0 < d \<or> parent \<noteq> T_ObjectExpression"
      and sub: "subtree_events d es" by simp_all
    show ?thesis
    proof (cases "0 < d")
      case True
      from handle_keeps_lower_frames[OF h True Cons.prems(3)] VisitSpreadElement
      have "drop d (stack s1) = drop d (stack s)" "length (stack s1) = length (stack s)" by simp_all
      with Cons.IH[OF sub t] Cons.prems(3) show ?thesis by simp
    next
      case False
      with c h VisitSpreadElement have "s1 = s" by (simp add: SpreadElement_def)
      with Cons.IH[OF sub t] Cons.prems(3) show ?thesis by simp
    qed
  next
    case (VisitProperty node)
    with Cons.prems(1) have c: "0 < d \<or> parent_type node = T_ObjectPattern"
      and sub: "subtree_events d es" by simp_all
    show ?thesis
    proof (cases "0 < d")
      case True
      from handle_keeps_lower_frames[OF h True Cons.prems(3)] VisitProperty
      have "drop d (stack s1) = drop d (stack s)" "length (stack s1) = length (stack s)" by simp_all
      with Cons.IH[OF sub t] Cons.prems(3) show ?thesis by simp
    next
      case False
      with c h VisitProperty have "s1 = s" by (simp add: Property_pattern)
      with Cons.IH[OF sub t] Cons.prems(3) show ?thesis by simp
    qed
  qed
qed

lemma subtree_events_same_stack:
  "subtree_events 0 es \<Longrightarrow> traverse cfg sc es s = Inr s' \<Longrightarrow> stack s' = stack s"
  using subtree_events_stack[of 0 es cfg sc s s'] by simp

subsection \<open>Slices\<close>

lemma slice_middle: "slice (xs @ ys @ zs) (length xs) (length xs + length ys) = ys"
  by (simp add: slice_def)

lemma slice_empty: "slice xs i i = []"
  by (simp add: slice_def)

lemma slice_split: "i \<le> j \<Longrightarrow> j \<le> k \<Longrightarrow> slice xs i k = slice xs i j @ slice xs j k"
proof -
  assume ij: "i \<le> j" and jk: "j \<le> k"
  then have "k - i = (j - i) + (k - j)" by simp
  then have "take (k - i) (drop i xs) =
      take (j - i) (drop i xs) @ take (k - j) (drop (j - i) (drop i xs))"
    by (simp only: take_add)
  with ij show ?thesis by (simp add: slice_def)
qed

subsection \<open>Sorting the fix objects of a swap\<close>

lemma insort_key_skip:
  "\<forall>y \<in> set xs. f y < f x \<Longrightarrow> insort_key f x (xs @ ys) = xs @ insort_key f x ys"
  by (induction xs) (auto simp: not_le)

lemma insort_key_front: "\<forall>y \<in> set ys. f x \<le> f y \<Longrightarrow> insort_key f x ys = x # ys"
  by (cases ys) auto

lemma key_simps:
  "compareFixesByRange_key (remove r) = r"
  "compareFixesByRange_key (insertTextBefore t x) = (fst t, fst t)"
  "compareFixesByRange_key (replaceText r x) = r"
  by (simp_all add: compareFixesByRange_key_def remove_def insertTextBefore_def replaceText_def)

lemma layout_Cons: "layout ((c, g) # cs) = c @ g @ layout cs"
  by (simp add: layout_def)

lemma removals_bounds:
  assumes "f \<in> set (removals off cs)" and "\<forall>(c, g) \<in> set cs. c \<noteq> []"
  shows "off \<le> fst (compareFixesByRange_key f) \<and>
         fst (compareFixesByRange_key f) < snd (compareFixesByRange_key f) \<and>
         snd (compareFixesByRange_key f) \<le> off + length (layout cs)"
  using assms
proof (induction cs arbitrary: off)
  case Nil
  then show ?case by simp
next
  case (Cons a cs)
  obtain c g where a: "a = (c, g)" by (cases a)
  from Cons.prems(2) a have c: "0 < length c" and rest: "\<forall>(c, g) \<in> set cs. c \<noteq> []" by auto
  from Cons.prems(1) a consider "f = remove (off, off + length c)"
    | "f \<in> set (removals (off + length c + length g) cs)" by auto
  then show ?case
  proof cases
    case 1
    with c a show ?thesis by (simp add: key_simps layout_Cons del: length_greater_0_conv)
  next
    case 2
    from Cons.IH[OF 2 rest] a show ?thesis by (simp add: layout_Cons)
  qed
qed

lemma inserts_key:
  "f \<in> set (inserts t cs) \<Longrightarrow> compareFixesByRange_key f = (fst t, fst t)"
  by (auto simp: inserts_def key_simps)

lemma sort_moves_to:
  assumes "\<forall>(c, g) \<in> set cs. c \<noteq> []"
    and "off + length (layout cs) \<le> fst rn" and "fst rn \<le> snd rn"
  shows "sort_key compareFixesByRange_key (comment_moves rn off cs @ [replaceText rn A]) =
           removals off cs @ inserts rn cs @ [replaceText rn A]"
  using assms
proof (induction cs arbitrary: off)
  case Nil
  then show ?case by (simp add: inserts_def)
next
  case (Cons a cs)
  obtain c g where a: "a = (c, g)" by (cases a)
  let ?k = compareFixesByRange_key
  let ?off' = "off + length c + length g"
  from Cons.prems(1) a have c: "0 < length c" and rest: "\<forall>(c, g) \<in> set cs. c \<noteq> []" by auto
  from Cons.prems(2) a have le': "?off' + length (layout cs) \<le> fst rn"
    by (simp add: layout_Cons)
  have IH: "sort_key ?k (comment_moves rn ?off' cs @ [replaceText rn A]) =
              removals ?off' cs @ inserts rn cs @ [replaceText rn A]"
    by (rule Cons.IH[OF rest le' Cons.prems(3)])
  let ?rem = "remove (off, off + length c)"
  let ?ins = "insertTextBefore rn (c @ [CHR 0x0A])"
  have rem_le: "\<forall>y \<in> set (removals ?off' cs @ inserts rn cs @ [replaceText rn A]). ?k ?rem \<le> ?k y"
  proof
    fix y assume "y \<in> set (removals ?off' cs @ inserts rn cs @ [replaceText rn A])"
    then consider "y \<in> set (removals ?off' cs)" | "y \<in> set (inserts rn cs)"
      | "y = replaceText rn A" by auto
    then show "?k ?rem \<le> ?k y"
    proof cases
      case 1
      from removals_bounds[OF 1 rest] c show ?thesis
        by (cases "?k y") (auto simp: key_simps less_eq_prod_def simp del: length_greater_0_conv)
    next
      case 2
      from inserts_key[OF 2] le' c show ?thesis
        by (auto simp: key_simps less_eq_prod_def simp del: length_greater_0_conv)
    next
      case 3
      with le' c show ?thesis
        by (cases rn) (auto simp: key_simps less_eq_prod_def simp del: length_greater_0_conv)
    qed
  qed
  have step1: "insort_key ?k ?rem (removals ?off' cs @ inserts rn cs @ [replaceText rn A]) =
      ?rem # removals ?off' cs @ inserts rn cs @ [replaceText rn A]"
    by (rule insort_key_front[OF rem_le])
  have before: "\<forall>y \<in> set (?rem # removals ?off' cs). ?k y < ?k ?ins"
  proof
    fix y assume "y \<in> set (?rem # removals ?off' cs)"
    then consider "y = ?rem" | "y \<in> set (removals ?off' cs)" by auto
    then show "?k y < ?k ?ins"
    proof cases
      case 1
      with le' c show ?thesis by (auto simp: key_simps less_prod_def simp del: length_greater_0_conv)
    next
      case 2
      from removals_bounds[OF 2 rest] le' show ?thesis
        by (cases "?k y") (auto simp: key_simps less_prod_def simp del: length_greater_0_conv)
    qed
  qed
  have after: "\<forall>y \<in> set (inserts rn cs @ [replaceText rn A]). ?k ?ins \<le> ?k y"
    using Cons.prems(3) by (cases rn) (auto simp: key_simps less_eq_prod_def dest: inserts_key)
  have step2: "insort_key ?k ?ins ((?rem # removals ?off' cs) @ inserts rn cs @ [replaceText rn A]) =
      (?rem # removals ?off' cs) @ ?ins # inserts rn cs @ [replaceText rn A]"
    by (simp only: insort_key_skip[OF before] insort_key_front[OF after])
  show ?case
    using IH step1 step2 by (simp add: a inserts_def)
qed

lemma sort_swap_fixes:
  assumes ne: "\<forall>(c, g) \<in> set cps \<union> set cns. c \<noteq> []"
    and p0: "offp + length (layout cps) = fst rp" and p1: "fst rp \<le> snd rp"
    and q: "snd rp \<le> offn"
    and n0: "offn + length (layout cns) = fst rn" and n1: "fst rn \<le> snd rn"
  shows "sort_key compareFixesByRange_key
           (comment_moves rp offn cns @ [replaceText rp B] @
            comment_moves rn offp cps @ [replaceText rn A]) =
         removals offp cps @ inserts rp cns @ [replaceText rp B] @
         removals offn cns @ inserts rn cps @ [replaceText rn A]"
  using ne q n0
proof (induction cns arbitrary: offn)
  case Nil
  let ?k = compareFixesByRange_key
  from Nil.prems(1) have nep: "\<forall>(c, g) \<in> set cps. c \<noteq> []" by auto
  from Nil.prems(2,3) have le: "snd rp \<le> fst rn" by (simp add: layout_def)
  from p0 p1 le have "offp + length (layout cps) \<le> fst rn" by simp
  from sort_moves_to[OF nep this n1]
  have tail: "sort_key ?k (comment_moves rn offp cps @ [replaceText rn A]) =
      removals offp cps @ inserts rn cps @ [replaceText rn A]" .
  have before: "\<forall>y \<in> set (removals offp cps). ?k y < ?k (replaceText rp B)"
  proof
    fix y assume y: "y \<in> set (removals offp cps)"
    from removals_bounds[OF y nep] p0 show "?k y < ?k (replaceText rp B)"
      by (cases "?k y"; cases rp) (auto simp: key_simps less_prod_def)
  qed
  have after: "\<forall>y \<in> set (inserts rn cps @ [replaceText rn A]). ?k (replaceText rp B) \<le> ?k y"
    using p1 le n1
    by (cases rp; cases rn) (auto simp: key_simps less_eq_prod_def dest!: inserts_key)
  have "insort_key ?k (replaceText rp B) (removals offp cps @ inserts rn cps @ [replaceText rn A]) =
      removals offp cps @ replaceText rp B # inserts rn cps @ [replaceText rn A]"
    by (simp only: insort_key_skip[OF before] insort_key_front[OF after])
  with tail show ?case by (simp add: inserts_def)
next
  case (Cons a cns)
  obtain c g where a: "a = (c, g)" by (cases a)
  let ?k = compareFixesByRange_key
  let ?off' = "offn + length c + length g"
  from Cons.prems(1) a have c: "0 < length c"
    and nep: "\<forall>(c, g) \<in> set cps. c \<noteq> []" and nen: "\<forall>(c, g) \<in> set cns. c \<noteq> []"
    and ne': "\<forall>(c, g) \<in> set cps \<union> set cns. c \<noteq> []" by auto
  from Cons.prems(2) have q': "snd rp \<le> ?off'" by simp
  from Cons.prems(3) a have n0': "?off' + length (layout cns) = fst rn" by (simp add: layout_Cons)
  let ?P = "removals offp cps"
  let ?I = "inserts rp cns"
  let ?R = "removals ?off' cns"
  let ?T = "inserts rn cps @ [replaceText rn A]"
  have IH: "sort_key ?k (comment_moves rp ?off' cns @ [replaceText rp B] @
              comment_moves rn offp cps @ [replaceText rn A]) =
            ?P @ ?I @ [replaceText rp B] @ ?R @ ?T"
    using Cons.IH[OF ne' q' n0'] by simp
  let ?rem = "remove (offn, offn + length c)"
  let ?ins = "insertTextBefore rp (c @ [CHR 0x0A])"
  have rem_before: "\<forall>y \<in> set (?P @ ?I @ [replaceText rp B]). ?k y < ?k ?rem"
  proof
    fix y assume "y \<in> set (?P @ ?I @ [replaceText rp B])"
    then consider "y \<in> set ?P" | "y \<in> set ?I" | "y = replaceText rp B" by auto
    then show "?k y < ?k ?rem"
    proof cases
      case 1
      from removals_bounds[OF 1 nep] p0 p1 Cons.prems(2) show ?thesis
        by (cases "?k y") (auto simp: key_simps less_prod_def simp del: length_greater_0_conv)
    next
      case 2
      from inserts_key[OF 2] p1 Cons.prems(2) c show ?thesis
        by (auto simp: key_simps less_prod_def simp del: length_greater_0_conv)
    next
      case 3
      with p1 Cons.prems(2) c show ?thesis
        by (cases rp) (auto simp: key_simps less_prod_def simp del: length_greater_0_conv)
    qed
  qed
  have rem_after: "\<forall>y \<in> set (?R @ ?T). ?k ?rem \<le> ?k y"
  proof
    fix y assume "y \<in> set (?R @ ?T)"
    then consider "y \<in> set ?R" | "y \<in> set (inserts rn cps)" | "y = replaceText rn A" by auto
    then show "?k ?rem \<le> ?k y"
    proof cases
      case 1
      from removals_bounds[OF 1 nen] c show ?thesis
        by (cases "?k y") (auto simp: key_simps less_eq_prod_def simp del: length_greater_0_conv)
    next
      case 2
      from inserts_key[OF 2] n0' c show ?thesis
        by (auto simp: key_simps less_eq_prod_def simp del: length_greater_0_conv)
    next
      case 3
      with n0' c show ?thesis
        by (cases rn) (auto simp: key_simps less_eq_prod_def simp del: length_greater_0_conv)
    qed
  qed
  have step1: "insort_key ?k ?rem ((?P @ ?I @ [replaceText rp B]) @ ?R @ ?T) =
      (?P @ ?I @ [replaceText rp B]) @ ?rem # ?R @ ?T"
    by (simp only: insort_key_skip[OF rem_before] insort_key_front[OF rem_after])
  have ins_before: "\<forall>y \<in> set ?P. ?k y < ?k ?ins"
  proof
    fix y assume y: "y \<in> set ?P"
    from removals_bounds[OF y nep] p0 show "?k y < ?k ?ins"
      by (cases "?k y") (auto simp: key_simps less_prod_def)
  qed
  have ins_after: "\<forall>y \<in> set (?I @ [replaceText rp B] @ ?rem # ?R @ ?T). ?k ?ins \<le> ?k y"
  proof
    fix y assume "y \<in> set (?I @ [replaceText rp B] @ ?rem # ?R @ ?T)"
    then consider "y \<in> set ?I" | "y = replaceText rp B" | "y = ?rem" | "y \<in> set ?R"
      | "y \<in> set (inserts rn cps)" | "y = replaceText rn A" by auto
    then show "?k ?ins \<le> ?k y"
    proof cases
      case 1
      from inserts_key[OF 1] show ?thesis by (simp add: key_simps)
    next
      case 2
      with p1 show ?thesis by (cases rp) (auto simp: key_simps less_eq_prod_def)
    next
      case 3
      with p1 Cons.prems(2) show ?thesis by (auto simp: key_simps less_eq_prod_def)
    next
      case 4
      from removals_bounds[OF 4 nen] p1 q' show ?thesis
        by (cases "?k y") (auto simp: key_simps less_eq_prod_def)
    next
      case 5
      from inserts_key[OF 5] p1 q' n0' show ?thesis
        by (auto simp: key_simps less_eq_prod_def)
    next
      case 6
      with p1 q' n0' n1 show ?thesis
        by (cases rn) (auto simp: key_simps less_eq_prod_def)
    qed
  qed
  have step2: "insort_key ?k ?ins (?P @ ?I @ [replaceText rp B] @ ?rem # ?R @ ?T) =
      ?P @ ?ins # ?I @ [replaceText rp B] @ ?rem # ?R @ ?T"
    by (simp only: insort_key_skip[OF ins_before] insort_key_front[OF ins_after])
  show ?case
    using IH step1 step2 by (simp add: a inserts_def)
qed

subsection \<open>The text of the merged fix\<close>

lemma chained_mono: "chained pos fs \<Longrightarrow> pos' \<le> pos \<Longrightarrow> chained pos' fs"
  by (cases fs) auto

lemma chained_removals:
  "\<forall>(c, g) \<in> set cs. c \<noteq> [] \<Longrightarrow> pos \<le> off \<Longrightarrow> chained (off + length (layout cs)) fs \<Longrightarrow>
   chained pos (removals off cs @ fs)"
proof (induction cs arbitrary: pos off)
  case Nil
  then show ?case by (auto simp: layout_def intro: chained_mono)
next
  case (Cons a cs)
  obtain c g where a: "a = (c, g)" by (cases a)
  from Cons.prems(3) a have "chained (off + length c + length g + length (layout cs)) fs"
    by (simp add: layout_Cons add.assoc)
  from Cons.IH[OF _ _ this, of "off + length c"] Cons.prems(1,2) a show ?case
    by (simp add: remove_def)
qed

lemma chained_inserts: "chained (fst t) fs \<Longrightarrow> chained (fst t) (inserts t cs @ fs)"
  by (induction cs) (auto simp: inserts_def insertTextBefore_def)

lemma patched_rebase:
  "fs \<noteq> [] \<Longrightarrow> pos \<le> pos' \<Longrightarrow> pos' \<le> fst (fix_range (hd fs)) \<Longrightarrow>
   patched txt pos fs = slice txt pos pos' @ patched txt pos' fs"
proof -
  assume ne: "fs \<noteq> []" and le: "pos \<le> pos'" and le': "pos' \<le> fst (fix_range (hd fs))"
  from ne obtain f fs' where fs: "fs = f # fs'" by (cases fs) auto
  from le le' fs have "slice txt pos (fst (fix_range f)) =
      slice txt pos pos' @ slice txt pos' (fst (fix_range f))"
    by (intro slice_split) simp_all
  with fs show ?thesis by simp
qed

lemma patched_removals:
  "pos \<le> off \<Longrightarrow> fs \<noteq> [] \<Longrightarrow> off + length (layout cs) \<le> fst (fix_range (hd fs)) \<Longrightarrow>
   length X = off \<Longrightarrow> txt = X @ layout cs @ Y \<Longrightarrow>
   patched txt pos (removals off cs @ fs) =
     slice txt pos off @ gaps cs @ patched txt (off + length (layout cs)) fs"
proof (induction cs arbitrary: pos off X)
  case Nil
  then show ?case
    using patched_rebase[of fs pos off "txt"] by (simp add: layout_def gaps_def)
next
  case (Cons a cs)
  obtain c g where a: "a = (c, g)" by (cases a)
  let ?off' = "off + length c + length g"
  from Cons.prems(3) a have le: "?off' + length (layout cs) \<le> fst (fix_range (hd fs))"
    by (simp add: layout_Cons add.assoc)
  from Cons.prems(4) have len: "length (X @ c @ g) = ?off'" by simp
  from Cons.prems(5) a have tx: "txt = (X @ c @ g) @ layout cs @ Y"
    by (simp add: layout_Cons)
  have IH: "patched txt (off + length c) (removals ?off' cs @ fs) =
      slice txt (off + length c) ?off' @ gaps cs @ patched txt (?off' + length (layout cs)) fs"
    by (rule Cons.IH[OF _ Cons.prems(2) le len tx]) simp
  have g: "slice txt (off + length c) ?off' = g"
    using slice_middle[of "X @ c" g "layout cs @ Y"] Cons.prems(4) tx by simp
  show ?case
    using IH g a by (simp add: remove_def gaps_def layout_Cons add.assoc)
qed

lemma patched_inserts:
  "patched txt (fst t) (inserts t cs @ fs) = moved cs @ patched txt (fst t) fs"
  by (induction cs) (auto simp: inserts_def moved_def insertTextBefore_def slice_empty)

lemma mergeFixes_loop_chained:
  "chained pos fs \<Longrightarrow> start \<le> pos \<Longrightarrow>
   mergeFixes_loop txt start (int pos) acc fs =
     Inr (acc @ patched txt pos fs,
          int (if fs = [] then pos else snd (fix_range (last fs))))"
proof (induction fs arbitrary: pos acc)
  case Nil
  then show ?case by simp
next
  case (Cons f fs)
  from Cons.prems have c: "pos \<le> fst (fix_range f)" "fst (fix_range f) \<le> snd (fix_range f)"
    "chained (snd (fix_range f)) fs" by simp_all
  from c Cons.prems(2) have s: "start \<le> snd (fix_range f)" by simp
  from Cons.prems(2) have m: "nat (max (int start) (int pos)) = pos" by simp
  show ?case
    using Cons.IH[OF c(3) s] c(1) m by simp
qed

lemma chained_last:
  "chained pos fs \<Longrightarrow> fs \<noteq> [] \<Longrightarrow> pos \<le> snd (fix_range (last fs))"
proof (induction fs arbitrary: pos)
  case Nil
  then show ?case by simp
next
  case (Cons f fs)
  show ?case
  proof (cases fs)
    case Nil
    with Cons.prems show ?thesis by simp
  next
    case (Cons g gs)
    with Cons.prems Cons.IH[of "snd (fix_range f)"] show ?thesis by simp
  qed
qed

lemma mergeFixes_chained:
  assumes srt: "sort_key compareFixesByRange_key F = H" and len: "2 \<le> length H"
    and ch: "chained (fst (fix_range (hd H))) H"
  shows "mergeFixes txt F =
           Inr (Some \<lparr>fix_range = (fst (fix_range (hd H)), snd (fix_range (last H))),
                       fix_text = patched txt (fst (fix_range (hd H))) H\<rparr>)"
proof -
  from len obtain f g fs where H: "H = f # g # fs"
    by (cases H; cases "tl H") auto
  let ?start = "fst (fix_range f)"
  from ch H have c: "?start \<le> snd (fix_range f)" "chained (snd (fix_range f)) (g # fs)"
    by simp_all
  have first: "mergeFixes_loop txt ?start (- (2 ^ 53 - 1)) [] (f # g # fs) =
      mergeFixes_loop txt ?start (int (snd (fix_range f))) (fix_text f) (g # fs)"
    by (simp add: slice_empty)
  from mergeFixes_loop_chained[OF c(2) c(1), of "txt" "fix_text f"]
  have loop: "mergeFixes_loop txt ?start (- (2 ^ 53 - 1)) [] (f # g # fs) =
      Inr (fix_text f @ patched txt (snd (fix_range f)) (g # fs),
           int (snd (fix_range (last (g # fs)))))"
    unfolding first by simp
  have le: "?start \<le> snd (fix_range (last (g # fs)))"
    using chained_last[OF c(2)] c(1) by simp
  show ?thesis
    unfolding mergeFixes_def srt H
    using loop le by (simp add: Let_def slice_empty del: mergeFixes_loop.simps)
qed

lemma applyFixes_single:
  "fst (fix_range f) \<le> snd (fix_range f) \<Longrightarrow>
   applyFixes txt [f] = take (fst (fix_range f)) txt @ fix_text f @ drop (snd (fix_range f)) txt"
  by (simp add: applyFixes_def slice_def)

subsection \<open>The text after the edit of a swap\<close>

lemma comment_moves_of_tokens:
  "map tok_range toks = comment_ranges off cs \<Longrightarrow> length X = off \<Longrightarrow>
   src_text sc = X @ layout cs @ Y \<Longrightarrow>
   concat (map (\<lambda>thisComment.
             [insertTextBefore t (getText sc (tok_range thisComment) @ [CHR 0x0A]),
              remove (tok_range thisComment)]) toks) =
   comment_moves t off cs"
proof (induction cs arbitrary: toks off X)
  case Nil
  then show ?case by simp
next
  case (Cons a cs)
  obtain c g where a: "a = (c, g)" by (cases a)
  from Cons.prems(1) a obtain k ks where toks: "toks = k # ks"
    and k: "tok_range k = (off, off + length c)"
    and ks: "map tok_range ks = comment_ranges (off + length c + length g) cs"
    by (cases toks) auto
  from Cons.prems(3) a have src: "src_text sc = (X @ c @ g) @ layout cs @ Y"
    by (simp add: layout_Cons)
  have "getText sc (tok_range k) = c"
    using slice_middle[of X c "g @ layout cs @ Y"] Cons.prems(2) src
    by (simp add: getText_def k)
  moreover have "concat (map (\<lambda>thisComment.
             [insertTextBefore t (getText sc (tok_range thisComment) @ [CHR 0x0A]),
              remove (tok_range thisComment)]) ks) =
      comment_moves t (off + length c + length g) cs"
    by (rule Cons.IH[OF ks _ src]) (simp add: Cons.prems(2))
  ultimately show ?case by (simp add: toks a k)
qed

lemma moveProperty_layout:
  assumes "map tok_range (getCommentsBefore sc (node_range fromNode)) = comment_ranges off cs"
    and "length X = off" and "src_text sc = X @ layout cs @ Y"
  shows "moveProperty sc fromNode toNode =
           comment_moves (node_range toNode) off cs @
           [replaceText (node_range toNode) (getText sc (node_range fromNode))]"
  using comment_moves_of_tokens[OF assms, of "node_range toNode"]
  by (simp add: moveProperty_def Let_def)

lemma swap_text:
  assumes src: "src_text sc = pre @ layout cps @ A @ mid @ layout cns @ B @ post"
    and rp: "node_range p =
               (length pre + length (layout cps), length pre + length (layout cps) + length A)"
    and rn: "node_range node =
               (length pre + length (layout cps) + length A + length mid + length (layout cns),
                length pre + length (layout cps) + length A + length mid + length (layout cns) +
                length B)"
    and cp: "map tok_range (getCommentsBefore sc (node_range p)) =
               comment_ranges (length pre) cps"
    and cn: "map tok_range (getCommentsBefore sc (node_range node)) =
               comment_ranges (length pre + length (layout cps) + length A + length mid) cns"
    and ne: "\<forall>(c, g) \<in> set cps \<union> set cns. c \<noteq> []"
  shows "getText sc (node_range p) = A \<and> getText sc (node_range node) = B \<and>
         applyEdit (src_text sc) (fix_of sc node (Some p)) =
           Inr (pre @ gaps cps @ moved cns @ B @ mid @ gaps cns @ moved cps @ A @ post)"
proof -
  let ?offp = "length pre"
  let ?p0 = "length pre + length (layout cps)"
  let ?p1 = "?p0 + length A"
  let ?offn = "?p1 + length mid"
  let ?n0 = "?offn + length (layout cns)"
  let ?n1 = "?n0 + length B"
  let ?rp = "node_range p" and ?rn = "node_range node"
  let ?txt = "src_text sc"
  have tA: "getText sc ?rp = A"
    using slice_middle[of "pre @ layout cps" A "mid @ layout cns @ B @ post"]
    by (simp add: getText_def src rp)
  have tB: "getText sc ?rn = B"
    using slice_middle[of "pre @ layout cps @ A @ mid @ layout cns" B post]
    by (simp add: getText_def src rn add.assoc)
  have mp1: "moveProperty sc node p = comment_moves ?rp ?offn cns @ [replaceText ?rp B]"
    using moveProperty_layout[OF cn, of "pre @ layout cps @ A @ mid" "B @ post" p] src tB
    by simp
  have mp2: "moveProperty sc p node = comment_moves ?rn ?offp cps @ [replaceText ?rn A]"
    using moveProperty_layout[OF cp, of pre "A @ mid @ layout cns @ B @ post" node] src tA
    by simp
  let ?F = "comment_moves ?rp ?offn cns @ [replaceText ?rp B] @
            comment_moves ?rn ?offp cps @ [replaceText ?rn A]"
  let ?T = "inserts ?rn cps @ [replaceText ?rn A]"
  let ?M = "inserts ?rp cns @ [replaceText ?rp B] @ removals ?offn cns @ ?T"
  let ?H = "removals ?offp cps @ ?M"
  have fx: "fix_of sc node (Some p) = Inr ?F"
    by (simp add: fix_of_def mp1 mp2)
  have srt: "sort_key compareFixesByRange_key ?F = ?H"
    by (rule sort_swap_fixes[OF ne]) (simp_all add: rp rn)
  have nep: "\<forall>(c, g) \<in> set cps. c \<noteq> []" and nen: "\<forall>(c, g) \<in> set cns. c \<noteq> []"
    using ne by auto
  have len: "2 \<le> length ?H" by simp
  have hd_H: "fst (fix_range (hd ?H)) = ?offp"
    by (cases cps; cases cns)
       (auto simp: rp layout_def inserts_def insertTextBefore_def replaceText_def remove_def)
  have last_H: "snd (fix_range (last ?H)) = ?n1"
    by (simp add: rn replaceText_def)
  have chT: "chained (fst ?rn) ?T"
    by (rule chained_inserts) (simp add: rn replaceText_def)
  have chR: "chained (snd ?rp) (removals ?offn cns @ ?T)"
    by (rule chained_removals[OF nen]) (use chT in \<open>simp_all add: rp rn\<close>)
  have chM: "chained (fst ?rp) ?M"
    by (rule chained_inserts) (use chR in \<open>simp add: rp replaceText_def\<close>)
  have chH: "chained ?offp ?H"
    by (rule chained_removals[OF nep]) (use chM in \<open>simp_all add: rp\<close>)
  have hdT: "fst (fix_range (hd ?T)) = ?n0"
    by (cases cps) (auto simp: rn inserts_def insertTextBefore_def replaceText_def)
  have hdM: "fst (fix_range (hd ?M)) = ?p0"
    by (cases cns) (auto simp: rp inserts_def insertTextBefore_def replaceText_def)
  have pT: "patched ?txt ?n0 ?T = moved cps @ A"
    using patched_inserts[of ?txt ?rn cps "[replaceText ?rn A]"]
    by (simp add: rn replaceText_def slice_empty)
  have mid: "slice ?txt ?p1 ?offn = mid"
    using slice_middle[of "pre @ layout cps @ A" mid "layout cns @ B @ post"]
    by (simp add: src add.assoc)
  have pR: "patched ?txt ?p1 (removals ?offn cns @ ?T) = mid @ gaps cns @ moved cps @ A"
    using patched_removals[of ?p1 ?offn ?T cns "pre @ layout cps @ A @ mid" ?txt "B @ post"]
      hdT pT mid
    by (simp add: src)
  have pM: "patched ?txt ?p0 ?M = moved cns @ B @ mid @ gaps cns @ moved cps @ A"
    using patched_inserts[of ?txt ?rp cns "[replaceText ?rp B] @ removals ?offn cns @ ?T"] pR
    by (simp add: rp replaceText_def slice_empty)
  have pH: "patched ?txt ?offp ?H =
      gaps cps @ moved cns @ B @ mid @ gaps cns @ moved cps @ A"
    using patched_removals[of ?offp ?offp ?M cps pre ?txt "A @ mid @ layout cns @ B @ post"]
      hdM pM
    by (simp add: src slice_empty)
  from mergeFixes_chained[OF srt len, of ?txt] chH
  have merged: "mergeFixes ?txt ?F =
      Inr (Some \<lparr>fix_range = (?offp, ?n1),
                  fix_text = gaps cps @ moved cns @ B @ mid @ gaps cns @ moved cps @ A\<rparr>)"
    by (simp only: hd_H last_H pH)
  have "applyEdit ?txt (fix_of sc node (Some p)) =
      Inr (applyFixes ?txt
             [\<lparr>fix_range = (?offp, ?n1),
               fix_text = gaps cps @ moved cns @ B @ mid @ gaps cns @ moved cps @ A\<rparr>])"
    by (simp only: applyEdit_def report_fix_def fx merged sum.case option.case)
  also have "\<dots> = Inr (pre @ gaps cps @ moved cns @ B @ mid @ gaps cns @ moved cps @ A @ post)"
    by (simp add: applyFixes_single src)
  finally show ?thesis using tA tB by simp
qed

section \<open>The claims\<close>

text \<open>
  Claim C1. For the source \<^verbatim>\<open>{b: 1, a: 2}\<close> with order \<^verbatim>\<open>"asc"\<close> and default
  options the walk reports exactly one violation. Its location is the span of the key
  \<^verbatim>\<open>a\<close>, its message is the template filled with the order \<^verbatim>\<open>asc\<close>, no
  \<^verbatim>\<open>natural\<close> and no \<^verbatim>\<open>insensitive\<close> fragment, and
  \<^verbatim>\<open>'a' should be before 'b'\<close>; its fix replaces each of the two entries by the text of
  the other, and applying it to the source gives \<^verbatim>\<open>{a: 2, b: 1}\<close>.
\<close>

theorem end_to_end_swap_of_b_and_a:
  "run (create nc default_asc) ba_source ba_events =
     Inr [\<lparr>rep_node = ba_a,
           rep_loc = key_loc (key ba_a),
           rep_message =
             ''Expected object keys to be in ascending order. '' @ [CHR 0x27] @ ''a'' @
             [CHR 0x27] @ '' should be before '' @ [CHR 0x27] @ ''b'' @ [CHR 0x27] @ ''.'',
           rep_fix = Inr [replaceText (1, 5) ''a: 2'', replaceText (7, 11) ''b: 1'']\<rparr>] \<and>
   key_loc (key ba_a) =
     \<lparr>loc_start = \<lparr>line = 1, column = 7\<rparr>, loc_end = \<lparr>line = 1, column = 8\<rparr>\<rparr> \<and>
   getText ba_source (7, 8) = ''a'' \<and>
   run_and_fix (create nc default_asc) ba_source ba_events = Inr ''{a: 2, b: 1}''"
  by code_simp

text \<open>
  Claim C2, as the specification states it, fails on \<^verbatim>\<open>{b: 1, [x+y]: 2, a: 3}\<close> under the
  default configuration. The second entry has no name, and the pair it forms with the entry
  \<^verbatim>\<open>a\<close> after it is reported: the visit of \<^verbatim>\<open>a\<close> reports a violation, located at the key
  \<^verbatim>\<open>a\<close>, whose fix exchanges the text of \<^verbatim>\<open>a\<close> with the text of the entry without a
  name. Its message names \<^verbatim>\<open>b\<close>, the previous name the frame still holds.
\<close>

theorem unnamed_predecessor_is_reported:
  "run (create naturalCompare default_asc) unnamed_source unnamed_events =
     Inr [\<lparr>rep_node = unnamed_a,
           rep_loc = key_loc (key unnamed_a),
           rep_message =
             ''Expected object keys to be in ascending order. '' @ [CHR 0x27] @ ''a'' @
             [CHR 0x27] @ '' should be before '' @ [CHR 0x27] @ ''b'' @ [CHR 0x27] @ ''.'',
           rep_fix = Inr [replaceText (7, 15) ''a: 3'', replaceText (17, 21) ''[x+y]: 2'']\<rparr>] \<and>
   getPropertyName unnamed_computed = None \<and>
   node_range unnamed_computed = (7, 15) \<and>
   getText unnamed_source (7, 15) = ''[x+y]: 2'' \<and>
   node_range unnamed_a = (17, 21) \<and>
   run_and_fix (create naturalCompare default_asc) unnamed_source unnamed_events =
     Inr ''{b: 1, a: 3, [x+y]: 2}''"
  by code_simp

text \<open>
  Claim C2, amended. Let \<open>A\<close> and \<open>B\<close> be consecutive entries of an object literal: the
  handler is called for \<open>A\<close>, then come the events of the subtree below \<open>A\<close>, then the
  handler is called for \<open>B\<close>. With \<^verbatim>\<open>allowLineSeparatedGroups\<close> off, and a token between
  the two entries, the call for \<open>B\<close> returns. When both entries have names it adds one
  report, for \<open>B\<close> and \<open>A\<close>, exactly when the comparator selected by the options rejects
  \<open>(nameOf A, nameOf B)\<close>, and none otherwise. The name of an entry without one is never
  compared: the call for such an entry reports nothing and leaves the previous names of all
  frames as they are. So when \<open>A\<close> has no name and \<open>B\<close> has one, \<open>B\<close> is compared with the
  name \<open>z\<close> the frame held before \<open>A\<close>, if any, and a violation located at the key of
  \<open>B\<close>, whose message names \<open>B\<close> and \<open>z\<close>, is reported exactly when the comparator rejects
  \<open>(z, nameOf B)\<close>. Nothing is said in that case about the fix of the report.
\<close>

theorem violation_iff_comparator_rejects:
  assumes cfg: "cfg = create nc opts" and off: "\<not> allowLineSeparatedGroups cfg"
    and pA: "parent_type A = T_ObjectExpression" and pB: "parent_type B = T_ObjectExpression"
    and A: "Property cfg sc A s = Inr s1"
    and sub: "subtree_events 0 es" and es: "traverse cfg sc es s1 = Inr s2"
    and toks: "getTokensBetween sc A B \<noteq> []"
  shows "\<exists>s3 valid. Property cfg sc B s2 = Inr s3 \<and> isValidOrder cfg = Some valid \<and>
           (\<forall>a b. getPropertyName A = Some a \<longrightarrow> getPropertyName B = Some b \<longrightarrow>
              reports s3 =
                (if valid a b then reports s2
                 else reports s2 @ [context_report cfg sc B (Some A) b a])) \<and>
           (getPropertyName B = None \<longrightarrow> reports s3 = reports s2) \<and>
           (getPropertyName A = None \<longrightarrow>
              reports s1 = reports s \<and> map prevName (stack s1) = map prevName (stack s) \<and>
              (\<forall>b. getPropertyName B = Some b \<longrightarrow>
                 (case prevName (hd (stack s)) of
                    None \<Rightarrow> reports s3 = reports s2
                  | Some z \<Rightarrow>
                      if valid z b then reports s3 = reports s2
                      else (\<exists>r. reports s3 = reports s2 @ [r] \<and> rep_node r = B \<and>
                              rep_loc r = key_loc (key B) \<and>
                              rep_message r = message cfg b z))))"
proof -
  from pA have nA: "parent_type A \<noteq> T_ObjectPattern" by simp
  from pB have nB: "parent_type B \<noteq> T_ObjectPattern" by simp
  from Property_Inr_stack[OF A nA] obtain f upper f1 where
    st: "stack s = f # upper" and st1: "stack s1 = f1 # upper"
    and node1: "prevNode f1 = Some A"
    and name1: "prevName f1 =
      (case getPropertyName A of None \<Rightarrow> prevName f | Some n \<Rightarrow> Some n)"
    by blast
  from subtree_events_same_stack[OF sub es] st1 have st2: "stack s2 = f1 # upper" by simp
  from isBlankLineBetweenNodes_tokens[OF node1 toks] obtain blank where
    blank: "isBlankLineBetweenNodes sc f1 B = Inr blank" by blast
  from cfg obtain valid where valid: "isValidOrder cfg = Some valid"
    by (simp add: create_isValidOrder)
  have unnamedA: "reports s1 = reports s \<and> map prevName (stack s1) = map prevName (stack s)"
    if "getPropertyName A = None"
    using A nA that st by (auto simp: Property_def Let_def split: sum.splits option.splits)
  show ?thesis
  proof (cases "getPropertyName B")
    case None
    from Property_unnamed[OF st2 nB blank None]
    have "Property cfg sc B s2 = Inr (s2\<lparr>stack := f1\<lparr>prevNode := Some B\<rparr> # upper\<rparr>)" .
    with valid None unnamedA show ?thesis by simp
  next
    case (Some b)
    show ?thesis
    proof (cases "prevName f1")
      case None
      with name1 have noA: "getPropertyName A = None" and nof: "prevName f = None"
        by (auto split: option.splits)
      from Property_first_name[OF st2 nB blank None Some]
      have "Property cfg sc B s2 =
              Inr (s2\<lparr>stack := f1\<lparr>prevNode := Some B, prevName := Some b\<rparr> # upper\<rparr>)" .
      with valid Some noA nof st unnamedA show ?thesis by simp
    next
      case (Some pn)
      from Property_compared[OF st2 nB blank Some \<open>getPropertyName B = Some b\<close> valid] off
      obtain s3 where s3: "Property cfg sc B s2 = Inr s3"
        and rep: "reports s3 =
          (if valid pn b then reports s2
           else reports s2 @ [context_report cfg sc B (prevNode f1) b pn])"
        by auto
      show ?thesis
      proof (cases "getPropertyName A")
        case None
        with name1 Some have "prevName f = Some pn" by simp
        with s3 rep valid None \<open>getPropertyName B = Some b\<close> st node1 unnamedA
        show ?thesis by (simp add: context_report_def)
      next
        case (Some a)
        with name1 \<open>prevName f1 = Some pn\<close> have "pn = a" by simp
        with s3 rep valid Some \<open>getPropertyName B = Some b\<close> node1
        show ?thesis by simp
      qed
    qed
  qed
qed

theorem violation_iff_comparator_rejects_witness:
  "\<exists>s1 s3.
     Property (create naturalCompare default_asc) ba_source ba_b
       \<lparr>stack = [\<lparr>prevName = None, prevNode = None, prevBlankLine = None\<rparr>], reports = []\<rparr>
       = Inr s1 \<and>
     Property (create naturalCompare default_asc) ba_source ba_a s1 = Inr s3 \<and>
     reports s3 =
       reports s1 @
       [context_report (create naturalCompare default_asc) ba_source ba_a (Some ba_b) ''a'' ''b'']"
proof -
  let ?cfg = "create naturalCompare default_asc"
  let ?s = "\<lparr>stack = [\<lparr>prevName = None, prevNode = None, prevBlankLine = None\<rparr>], reports = []\<rparr>"
  have "case Property ?cfg ba_source ba_b ?s of Inl e \<Rightarrow> False | Inr s1 \<Rightarrow> True"
    by code_simp
  then obtain s1 where A: "Property ?cfg ba_source ba_b ?s = Inr s1"
    by (auto split: sum.splits)
  have pA: "parent_type ba_b = T_ObjectExpression" and pB: "parent_type ba_a = T_ObjectExpression"
    by (simp_all add: ba_b_def ba_a_def entry_def identifier_property_def)
  have toks: "getTokensBetween ba_source ba_b ba_a \<noteq> []"
    by code_simp
  have nA: "getPropertyName ba_b = Some ''b''" and nB: "getPropertyName ba_a = Some ''a''"
    by code_simp+
  have sub: "subtree_events 0 []" by simp
  have tr: "traverse ?cfg ba_source [] s1 = Inr s1" by simp
  from violation_iff_comparator_rejects[OF refl create_default_asc(2) pA pB A sub tr toks]
  obtain s3 valid where B: "Property ?cfg ba_source ba_a s1 = Inr s3"
    and v: "isValidOrder ?cfg = Some valid"
    and r: "reports s3 =
       (if valid ''b'' ''a'' then reports s1
        else reports s1 @ [context_report ?cfg ba_source ba_a (Some ba_b) ''a'' ''b''])"
    using nA nB by auto
  from v have "valid = asc" by (simp add: create_default_asc)
  with r have "reports s3 = reports s1 @ [context_report ?cfg ba_source ba_a (Some ba_b) ''a'' ''b'']"
    by (simp add: asc_def)
  with A B show ?thesis by blast
qed

text \<open>
  Claim C3, as the specification states it, fails on \<^verbatim>\<open>{b: 1, c: 2, a: 3}\<close> under the
  default configuration: the pass proposes one edit, for \<^verbatim>\<open>c\<close> and \<^verbatim>\<open>a\<close>, and the text
  after it is \<^verbatim>\<open>{b: 1, a: 3, c: 2}\<close>, whose entries \<^verbatim>\<open>b\<close> and \<^verbatim>\<open>a\<close> are not in
  order; checking that text again reports them. The default configuration never calls the
  natural comparison.
\<close>

theorem one_pass_leaves_an_unordered_pair:
  "map_sum id length
     (run (create naturalCompare default_asc) (three_source three_text) (three_events three_text))
     = Inr 1 \<and>
   run_and_fix (create naturalCompare default_asc) (three_source three_text)
     (three_events three_text) = Inr ''{b: 1, a: 3, c: 2}'' \<and>
   map getPropertyName (three_entries ''{b: 1, a: 3, c: 2}'') = [Some ''b'', Some ''a'', Some ''c''] \<and>
   \<not> ''b'' \<le> ''a'' \<and>
   map_sum id (map rep_message)
     (run (create naturalCompare default_asc) (three_source ''{b: 1, a: 3, c: 2}'')
        (three_events ''{b: 1, a: 3, c: 2}'')) =
   Inr [''Expected object keys to be in ascending order. '' @ [CHR 0x27] @ ''a'' @
        [CHR 0x27] @ '' should be before '' @ [CHR 0x27] @ ''b'' @ [CHR 0x27] @ ''.'']"
  by code_simp

text \<open>
  Claim C3, amended. Under the default configuration, let the current entry have a name, and
  let the entry right before it in the literal be the one that has the previous name: the
  frame holds this entry as its previous node. When the two names are in order nothing is
  reported. Otherwise exactly one violation is reported, for the current entry, and the
  name of the current entry is at most the name of the previous one. Applying the edit of
  that report alone to the source text exchanges the texts of the two entries: the source
  text being laid out as a prefix, the comments directly before the previous entry, the
  previous entry, the text up to the comments directly before the current entry, these
  comments, the current entry, and a suffix, the text after the edit has the current entry
  in the place of the previous one, the previous one in the place of the current one, and
  before each of them the comments that stood before it, in their order, each followed by a
  line feed; these comments are gone from their old places, and all the other text stays.
  So the exchanged pair is in order afterwards. Nothing is said here about a current entry
  whose previous node is an entry without a name.
\<close>

theorem each_swap_orders_its_pair:
  assumes cfg: "cfg = create nc opts"
    and dflt: "options0 opts \<noteq> Some Desc" "options1 opts = None"
    and st: "stack s = f # upper"
    and pn: "prevName f = Some pn" and p: "prevNode f = Some p"
    and pname: "getPropertyName p = Some pn"
    and par: "parent_type node = T_ObjectExpression" and tn: "getPropertyName node = Some tn"
    and toks: "getTokensBetween sc p node \<noteq> []"
    and r: "r = context_report cfg sc node (Some p) tn pn"
  shows "(\<exists>s'. Property cfg sc node s = Inr s' \<and>
            reports s' = (if pn \<le> tn then reports s else reports s @ [r])) \<and>
         (\<not> pn \<le> tn \<longrightarrow> tn \<le> pn) \<and>
         rep_node r = node \<and>
         rep_fix r = Inr (moveProperty sc node p @ moveProperty sc p node) \<and>
         (\<forall>pre cps A mid cns B post.
            src_text sc = pre @ layout cps @ A @ mid @ layout cns @ B @ post \<longrightarrow>
            node_range p =
              (length pre + length (layout cps),
               length pre + length (layout cps) + length A) \<longrightarrow>
            node_range node =
              (length pre + length (layout cps) + length A + length mid + length (layout cns),
               length pre + length (layout cps) + length A + length mid + length (layout cns) +
               length B) \<longrightarrow>
            map tok_range (getCommentsBefore sc (node_range p)) =
              comment_ranges (length pre) cps \<longrightarrow>
            map tok_range (getCommentsBefore sc (node_range node)) =
              comment_ranges (length pre + length (layout cps) + length A + length mid) cns \<longrightarrow>
            (\<forall>(c, g) \<in> set cps \<union> set cns. c \<noteq> []) \<longrightarrow>
            getText sc (node_range p) = A \<and> getText sc (node_range node) = B \<and>
            applyEdit (src_text sc) (rep_fix r) =
              Inr (pre @ gaps cps @ moved cns @ B @ mid @ gaps cns @ moved cps @ A @ post))"
proof -
  from dflt have k: "(case options0 opts of None \<Rightarrow> Asc | Some k \<Rightarrow> k) = Asc"
    by (cases "options0 opts") (auto intro: order_keyword.exhaust)
  have valid: "isValidOrder cfg = Some asc"
    using dflt(2) by (simp add: cfg create_isValidOrder create_fields selected_def k)
  have off: "\<not> allowLineSeparatedGroups cfg"
    using dflt(2) by (simp add: cfg create_fields)
  from isBlankLineBetweenNodes_tokens[OF p toks] obtain blank where
    blank: "isBlankLineBetweenNodes sc f node = Inr blank" by blast
  from par have np: "parent_type node \<noteq> T_ObjectPattern" by simp
  from Property_compared[OF st np blank pn tn valid] off p
  have call: "\<exists>s'. Property cfg sc node s = Inr s' \<and>
            reports s' = (if pn \<le> tn then reports s else reports s @ [r])"
    by (auto simp: asc_def r)
  have ordered: "\<not> pn \<le> tn \<longrightarrow> tn \<le> pn" using linear[of pn tn] by blast
  have node: "rep_node r = node" by (simp add: r context_report_def)
  have fx: "rep_fix r = Inr (moveProperty sc node p @ moveProperty sc p node)"
    by (simp add: r context_report_def fix_of_def)
  have fx': "rep_fix r = fix_of sc node (Some p)"
    by (simp add: r context_report_def)
  from call ordered node fx swap_text[of sc _ _ _ _ _ _ _ p node] show ?thesis
    unfolding fx' by blast
qed

theorem each_swap_orders_its_pair_witness:
  "\<exists>s' r.
     Property (create naturalCompare default_asc) commented_source commented_a
       \<lparr>stack = [\<lparr>prevName = Some ''b'', prevNode = Some commented_b, prevBlankLine = None\<rparr>],
        reports = []\<rparr> = Inr s' \<and>
     \<not> ''b'' \<le> ''a'' \<and> reports s' = [r] \<and>
     applyEdit (src_text commented_source) (rep_fix r) =
       Inr (''{ /* x */'' @ [CHR 0x0A] @ ''a: 2,  /* y */'' @ [CHR 0x0A] @ ''b: 1}'') \<and>
     ''a'' \<le> ''b''"
proof -
  let ?cfg = "create naturalCompare default_asc"
  let ?f = "\<lparr>prevName = Some ''b'', prevNode = Some commented_b, prevBlankLine = None\<rparr>"
  let ?s = "\<lparr>stack = [?f], reports = []\<rparr>"
  let ?r = "context_report ?cfg commented_source commented_a (Some commented_b) ''a'' ''b''"
  let ?cps = "[(''/* y */'', '' '')]" and ?cns = "[(''/* x */'', '' '')]"
  have d: "options0 default_asc \<noteq> Some Desc" "options1 default_asc = None"
    by (simp_all add: default_asc_def)
  have st: "stack ?s = ?f # []" by simp
  have pn: "prevName ?f = Some ''b''" and p: "prevNode ?f = Some commented_b" by simp_all
  have pname: "getPropertyName commented_b = Some ''b''"
    and tn: "getPropertyName commented_a = Some ''a''"
    by code_simp+
  have par: "parent_type commented_a = T_ObjectExpression"
    by (simp add: commented_a_def entry_def identifier_property_def)
  have toks: "getTokensBetween commented_source commented_b commented_a \<noteq> []"
    by code_simp
  have src: "src_text commented_source =
      ''{'' @ layout ?cps @ ''b: 1'' @ '', '' @ layout ?cns @ ''a: 2'' @ ''}''"
    by code_simp
  have rp: "node_range commented_b =
      (length ''{'' + length (layout ?cps), length ''{'' + length (layout ?cps) + length ''b: 1'')"
    by code_simp
  have rn: "node_range commented_a =
      (length ''{'' + length (layout ?cps) + length ''b: 1'' + length '', '' + length (layout ?cns),
       length ''{'' + length (layout ?cps) + length ''b: 1'' + length '', '' + length (layout ?cns) +
       length ''a: 2'')"
    by code_simp
  have cp: "map tok_range (getCommentsBefore commented_source (node_range commented_b)) =
      comment_ranges (length ''{'') ?cps"
    by code_simp
  have cn: "map tok_range (getCommentsBefore commented_source (node_range commented_a)) =
      comment_ranges (length ''{'' + length (layout ?cps) + length ''b: 1'' + length '', '') ?cns"
    by code_simp
  have ne: "\<And>x. x \<in> set ?cps \<union> set ?cns \<Longrightarrow> case x of (c, g) \<Rightarrow> c \<noteq> []" by auto
  have nle: "\<not> ''b'' \<le> ''a''" by simp
  note inst = each_swap_orders_its_pair[OF refl d st pn p pname par tn toks refl, of naturalCompare]
  from inst obtain s' where s': "Property ?cfg commented_source commented_a ?s = Inr s'"
    and rs: "reports s' = (if ''b'' \<le> ''a'' then reports ?s else reports ?s @ [?r])"
    by blast
  from inst[THEN conjunct2, THEN conjunct2, THEN conjunct2, THEN conjunct2, rule_format,
      OF src rp rn cp cn ne]
  have "applyEdit (src_text commented_source) (rep_fix ?r) =
      Inr (''{'' @ gaps ?cps @ moved ?cns @ ''a: 2'' @ '', '' @ gaps ?cns @ moved ?cps @
           ''b: 1'' @ ''}'')"
    by blast
  then have "applyEdit (src_text commented_source) (rep_fix ?r) =
      Inr (''{ /* x */'' @ [CHR 0x0A] @ ''a: 2,  /* y */'' @ [CHR 0x0A] @ ''b: 1}'')"
    by (simp add: gaps_def moved_def)
  with s' rs nle show ?thesis by auto
qed

text \<open>
  Claim C4. With \<^verbatim>\<open>allowLineSeparatedGroups\<close> on, in a state a walk reaches, for a named
  entry whose frame holds a previous name and a previous node with a token between the two:
  the call reports nothing when there is a qualifying blank line (some adjacent pair of the
  tokens and comments between them, or the previous node and the first of them, or the last
  of them and the entry, more than one line apart), and otherwise it reports exactly when
  the comparator rejects the two names. So \<^verbatim>\<open>{ b: 1, a: 2 }\<close> reports one violation, and
  the same entries with a blank line between them report none, while they report one with
  the option off.
\<close>

theorem grouping_skips_on_qualifying_blank_line:
  "(\<forall>cfg nc opts sc es s f upper pn p node tn.
      cfg = create nc opts \<longrightarrow> allowLineSeparatedGroups cfg \<longrightarrow>
      traverse cfg sc es initial = Inr s \<longrightarrow> stack s = f # upper \<longrightarrow>
      prevName f = Some pn \<longrightarrow> prevNode f = Some p \<longrightarrow>
      parent_type node = T_ObjectExpression \<longrightarrow> getPropertyName node = Some tn \<longrightarrow>
      getTokensBetween sc p node \<noteq> [] \<longrightarrow>
      (\<exists>s' valid. Property cfg sc node s = Inr s' \<and> isValidOrder cfg = Some valid \<and>
         reports s' =
           (if qualifying_blank_line p (getTokensBetween sc p node) node then reports s
            else if valid pn tn then reports s
            else reports s @ [context_report cfg sc node (Some p) tn pn]))) \<and>
   map_sum id (map rep_message) (run (create nc' grouping_on) spaced_source spaced_events) =
     Inr [''Expected object keys to be in ascending order. '' @ [CHR 0x27] @ ''a'' @
          [CHR 0x27] @ '' should be before '' @ [CHR 0x27] @ ''b'' @ [CHR 0x27] @ ''.''] \<and>
   run (create nc' grouping_on) blank_line_source blank_line_events = Inr [] \<and>
   map_sum id length (run (create nc' default_asc) blank_line_source blank_line_events) = Inr 1"
proof -
  have general: "\<exists>s' valid. Property cfg sc node s = Inr s' \<and> isValidOrder cfg = Some valid \<and>
         reports s' =
           (if qualifying_blank_line p (getTokensBetween sc p node) node then reports s
            else if valid pn tn then reports s
            else reports s @ [context_report cfg sc node (Some p) tn pn])"
    if cfg: "cfg = create nc opts" and allow: "allowLineSeparatedGroups cfg"
      and walk: "traverse cfg sc es initial = Inr s" and st: "stack s = f # upper"
      and pn: "prevName f = Some pn" and p: "prevNode f = Some p"
      and par: "parent_type node = T_ObjectExpression" and tn: "getPropertyName node = Some tn"
      and toks: "getTokensBetween sc p node \<noteq> []"
    for cfg nc opts sc es s f upper pn p node tn
  proof -
    from traverse_initial_frame_ok[OF walk, of f] st have "prevBlankLine f \<noteq> Some True"
      by (simp add: frame_ok_def)
    from isBlankLineBetweenNodes_gap[OF p toks this]
    have blank: "isBlankLineBetweenNodes sc f node =
                   Inr (qualifying_blank_line p (getTokensBetween sc p node) node)" .
    from cfg obtain valid where valid: "isValidOrder cfg = Some valid"
      by (simp add: create_isValidOrder)
    from par have np: "parent_type node \<noteq> T_ObjectPattern" by simp
    from Property_compared[OF st np blank pn tn valid] allow p valid
    show ?thesis by auto
  qed
  have ex1: "map_sum id (map rep_message) (run (create nc' grouping_on) spaced_source spaced_events) =
     Inr [''Expected object keys to be in ascending order. '' @ [CHR 0x27] @ ''a'' @
          [CHR 0x27] @ '' should be before '' @ [CHR 0x27] @ ''b'' @ [CHR 0x27] @ ''.'']"
    by code_simp
  have ex2: "run (create nc' grouping_on) blank_line_source blank_line_events = Inr []"
    by code_simp
  have ex3: "map_sum id length (run (create nc' default_asc) blank_line_source blank_line_events) = Inr 1"
    by code_simp
  from general ex1 ex2 ex3 show ?thesis by blast
qed

theorem grouping_skips_on_qualifying_blank_line_witness:
  "\<exists>s s'.
     traverse (create naturalCompare grouping_on) spaced_source
       [EnterObjectExpression, VisitProperty spaced_b] initial = Inr s \<and>
     \<not> qualifying_blank_line spaced_b (getTokensBetween spaced_source spaced_b spaced_a) spaced_a \<and>
     Property (create naturalCompare grouping_on) spaced_source spaced_a s = Inr s' \<and>
     reports s' =
       reports s @
       [context_report (create naturalCompare grouping_on) spaced_source spaced_a (Some spaced_b)
          ''a'' ''b'']"
proof -
  let ?cfg = "create naturalCompare grouping_on"
  let ?es = "[EnterObjectExpression, VisitProperty spaced_b]"
  have "case traverse ?cfg spaced_source ?es initial of
          Inl e \<Rightarrow> False
        | Inr s \<Rightarrow> map prevName (stack s) = [Some ''b''] \<and> map prevNode (stack s) = [Some spaced_b]"
    by code_simp
  then obtain s f where walk: "traverse ?cfg spaced_source ?es initial = Inr s"
    and st: "stack s = f # []" and pn: "prevName f = Some ''b''" and p: "prevNode f = Some spaced_b"
    by (auto split: sum.splits)
  have allow: "allowLineSeparatedGroups ?cfg"
    by (simp add: create_fields grouping_on_def)
  have par: "parent_type spaced_a = T_ObjectExpression"
    by (simp add: spaced_a_def entry_def identifier_property_def)
  have tn: "getPropertyName spaced_a = Some ''a''"
    by code_simp
  have toks: "getTokensBetween spaced_source spaced_b spaced_a \<noteq> []"
    by code_simp
  have gap: "\<not> qualifying_blank_line spaced_b (getTokensBetween spaced_source spaced_b spaced_a) spaced_a"
    by code_simp
  have v: "isValidOrder ?cfg = Some asc"
    by (simp add: create_isValidOrder create_fields selected_def grouping_on_def)
  from grouping_skips_on_qualifying_blank_line[THEN conjunct1, rule_format,
      OF refl allow walk st pn p par tn toks]
  obtain s' valid where "Property ?cfg spaced_source spaced_a s = Inr s'"
    and "isValidOrder ?cfg = Some valid"
    and "reports s' =
           (if qualifying_blank_line spaced_b (getTokensBetween spaced_source spaced_b spaced_a) spaced_a
            then reports s
            else if valid ''b'' ''a'' then reports s
            else reports s @ [context_report ?cfg spaced_source spaced_a (Some spaced_b) ''a'' ''b''])"
    by blast
  with v gap walk show ?thesis
    by (auto simp: asc_def)
qed

text \<open>
  Claim C5, as the specification states it, fails on \<^verbatim>\<open>{...x, b: 1, a: 2}\<close>: both entries
  come after the spread member, so \<^verbatim>\<open>b\<close> becomes the previous name and \<^verbatim>\<open>a\<close> is
  compared with it. The walk reports one violation.
\<close>

theorem spread_first_reports_b_a:
  "map_sum id (map rep_message)
     (run (create naturalCompare default_asc) spread_first_source spread_first_events) =
   Inr [''Expected object keys to be in ascending order. '' @ [CHR 0x27] @ ''a'' @
        [CHR 0x27] @ '' should be before '' @ [CHR 0x27] @ ''b'' @ [CHR 0x27] @ ''.'']"
  by code_simp

text \<open>
  Claim C5, amended. Visiting a spread member whose parent is an object literal sets the
  previous name of the current frame to \<^verbatim>\<open>null\<close> and changes nothing else: the previous
  node and the blank-line flag stay, no frame is pushed or popped, nothing is reported.
  Hence the entry visited right after a spread member is never reported, whatever the
  configuration. \<^verbatim>\<open>{b: 1, ...x, a: 2}\<close> reports nothing;
  \<^verbatim>\<open>{...x, b: 1, a: 2}\<close> reports that \<^verbatim>\<open>a\<close> should be before \<^verbatim>\<open>b\<close>.
\<close>

theorem spread_resets_previous_name:
  "(\<forall>s f upper. stack s = f # upper \<longrightarrow>
      (\<exists>s'. SpreadElement T_ObjectExpression s = Inr s' \<and>
            stack s' = f\<lparr>prevName := None\<rparr> # upper \<and>
            prevName (hd (stack s')) = None \<and>
            prevNode (hd (stack s')) = prevNode f \<and>
            prevBlankLine (hd (stack s')) = prevBlankLine f \<and>
            length (stack s') = length (stack s) \<and>
            reports s' = reports s)) \<and>
   (\<forall>cfg sc node s s'. stack s \<noteq> [] \<longrightarrow>
      traverse cfg sc [VisitSpreadElement T_ObjectExpression, VisitProperty node] s = Inr s' \<longrightarrow>
      reports s' = reports s) \<and>
   run (create nc default_asc) spread_between_source spread_between_events = Inr [] \<and>
   map_sum id (map rep_message)
     (run (create nc default_asc) spread_first_source spread_first_events) =
   Inr [''Expected object keys to be in ascending order. '' @ [CHR 0x27] @ ''a'' @
        [CHR 0x27] @ '' should be before '' @ [CHR 0x27] @ ''b'' @ [CHR 0x27] @ ''.'']"
proof -
  have frame: "\<exists>s'. SpreadElement T_ObjectExpression s = Inr s' \<and>
            stack s' = f\<lparr>prevName := None\<rparr> # upper \<and>
            prevName (hd (stack s')) = None \<and>
            prevNode (hd (stack s')) = prevNode f \<and>
            prevBlankLine (hd (stack s')) = prevBlankLine f \<and>
            length (stack s') = length (stack s) \<and>
            reports s' = reports s" if "stack s = f # upper" for s f upper
    using that by (simp add: SpreadElement_def)
  have after: "reports s' = reports s"
    if ne: "stack s \<noteq> []"
      and t: "traverse cfg sc [VisitSpreadElement T_ObjectExpression, VisitProperty node] s = Inr s'"
    for cfg sc node s s'
  proof -
    from ne obtain f upper where st: "stack s = f # upper" by (cases "stack s") auto
    let ?s1 = "s\<lparr>stack := f\<lparr>prevName := None\<rparr> # upper\<rparr>"
    from st have s1: "SpreadElement T_ObjectExpression s = Inr ?s1"
      by (simp add: SpreadElement_def)
    with t have p: "Property cfg sc node ?s1 = Inr s'" by (simp split: sum.splits)
    then show ?thesis
      by (auto simp: Property_def Let_def split: if_splits sum.splits option.splits)
  qed
  have ex1: "run (create nc default_asc) spread_between_source spread_between_events = Inr []"
    by code_simp
  have ex2: "map_sum id (map rep_message)
     (run (create nc default_asc) spread_first_source spread_first_events) =
   Inr [''Expected object keys to be in ascending order. '' @ [CHR 0x27] @ ''a'' @
        [CHR 0x27] @ '' should be before '' @ [CHR 0x27] @ ''b'' @ [CHR 0x27] @ ''.'']"
    by code_simp
  from frame after ex1 ex2 show ?thesis by blast
qed

theorem spread_resets_previous_name_witness:
  "\<exists>s'. SpreadElement T_ObjectExpression
          \<lparr>stack = [\<lparr>prevName = Some ''b'', prevNode = Some ba_b, prevBlankLine = None\<rparr>],
           reports = []\<rparr> = Inr s' \<and>
        stack s' = [\<lparr>prevName = None, prevNode = Some ba_b, prevBlankLine = None\<rparr>] \<and>
        reports s' = []"
  using spread_resets_previous_name[THEN conjunct1, rule_format,
      of "\<lparr>stack = [\<lparr>prevName = Some ''b'', prevNode = Some ba_b, prevBlankLine = None\<rparr>],
           reports = []\<rparr>"
         "\<lparr>prevName = Some ''b'', prevNode = Some ba_b, prevBlankLine = None\<rparr>" "[]"]
  by auto

text \<open>
  Claim C6. On \<^verbatim>\<open>item2\<close> and \<^verbatim>\<open>item10\<close> the natural ascending comparator accepts
  \<^verbatim>\<open>item2\<close> before \<^verbatim>\<open>item10\<close> and rejects the other order; the lexicographic
  ascending comparator accepts \<^verbatim>\<open>item10\<close> before \<^verbatim>\<open>item2\<close> and rejects the other
  order. The natural comparison is the one modelled from the specification.
\<close>

theorem natural_and_lexicographic_item2_item10:
  "ascN naturalCompare ''item2'' ''item10'' \<and> \<not> ascN naturalCompare ''item10'' ''item2'' \<and>
   asc ''item10'' ''item2'' \<and> \<not> asc ''item2'' ''item10''"
  by (simp add: ascN_def asc_def isDigit_def numericValue_def)

text \<open>
  Claim C7. The case-insensitive ascending comparator compares the lower-cased operands:
  lower-casing turns \<^verbatim>\<open>Item-B2\<close> into \<^verbatim>\<open>item-b2\<close> and the Latin-1 capitals into their
  small letters, and leaves the other characters. So the comparator accepts \<^verbatim>\<open>a\<close> before
  \<^verbatim>\<open>B\<close> and rejects \<^verbatim>\<open>B\<close> before \<^verbatim>\<open>a\<close>, and it accepts \<^verbatim>\<open>A\<close> and \<^verbatim>\<open>a\<close> in
  both orders. With no options the rule selects \<^verbatim>\<open>asc\<close>, and with
  \<^verbatim>\<open>caseSensitive: false\<close> it selects \<^verbatim>\<open>ascI\<close>; \<^verbatim>\<open>asc\<close> accepts \<^verbatim>\<open>B\<close> before
  \<^verbatim>\<open>a\<close> and rejects \<^verbatim>\<open>a\<close> before \<^verbatim>\<open>B\<close>, capitals coming first in the order of
  the character codes.
\<close>

theorem case_insensitive_and_default_comparator:
  "ascI a b = (toLowerCase a \<le> toLowerCase b) \<and>
   toLowerCase ''Item-B2'' = ''item-b2'' \<and>
   toLowerCase [CHR 0xC0, CHR 0xD7, CHR 0xDE, CHR 0xDF] = [CHR 0xE0, CHR 0xD7, CHR 0xFE, CHR 0xDF] \<and>
   ascI ''a'' ''B'' \<and> \<not> ascI ''B'' ''a'' \<and> ascI ''A'' ''a'' \<and> ascI ''a'' ''A'' \<and>
   \<not> ascI ''b'' ''A'' \<and>
   isValidOrder (create nc \<lparr>options0 = None, options1 = None\<rparr>) = Some asc \<and>
   isValidOrder (create nc \<lparr>options0 = None,
      options1 = Some \<lparr>opt_caseSensitive = Some False, opt_natural = None,
                        opt_allowLineSeparatedGroups = None\<rparr>\<rparr>) = Some ascI \<and>
   asc ''B'' ''a'' \<and> \<not> asc ''a'' ''B'' \<and> asc ''A'' ''a'' \<and> \<not> asc ''a'' ''A''"
proof -
  have lower: "toLowerCase ''Item-B2'' = ''item-b2''"
    "toLowerCase [CHR 0xC0, CHR 0xD7, CHR 0xDE, CHR 0xDF] = [CHR 0xE0, CHR 0xD7, CHR 0xFE, CHR 0xDF]"
    by code_simp+
  have cmp: "ascI ''a'' ''B''" "\<not> ascI ''B'' ''a''" "ascI ''A'' ''a''" "ascI ''a'' ''A''"
    "\<not> ascI ''b'' ''A''"
    by code_simp+
  show ?thesis
    using lower cmp
    by (simp add: ascI_def asc_def create_isValidOrder create_fields selected_def)
qed

text \<open>
  Claim C8. For every pair of strings and each of the four combinations of case sensitivity
  and natural mode, the descending comparator on \<open>(a, b)\<close> gives what the ascending one
  gives on \<open>(b, a)\<close>: for the comparators that \<^verbatim>\<open>create\<close> selects from any options object,
  and for the eight entries of the table, whatever \<^verbatim>\<open>naturalCompare\<close> computes.
\<close>

theorem descending_is_flipped_ascending:
  "(\<exists>d u. isValidOrder (create nc \<lparr>options0 = Some Desc, options1 = ob\<rparr>) = Some d \<and>
          isValidOrder (create nc \<lparr>options0 = Some Asc, options1 = ob\<rparr>) = Some u \<and>
          (\<forall>a b. d a b = u b a)) \<and>
   desc a b = asc b a \<and> descI a b = ascI b a \<and>
   descN nc a b = ascN nc b a \<and> descIN nc a b = ascIN nc b a"
proof -
  let ?D = "create nc \<lparr>options0 = Some Desc, options1 = ob\<rparr>"
  let ?A = "create nc \<lparr>options0 = Some Asc, options1 = ob\<rparr>"
  have i: "insensitive ?D = insensitive ?A" and n: "natual ?D = natual ?A"
    by (simp_all add: create_fields)
  have "isValidOrder ?D = Some (selected nc Desc (insensitive ?A) (natual ?A))"
    by (simp add: create_isValidOrder i n)
  moreover have "isValidOrder ?A = Some (selected nc Asc (insensitive ?A) (natual ?A))"
    by (simp add: create_isValidOrder)
  ultimately have
    "\<exists>d u. isValidOrder ?D = Some d \<and> isValidOrder ?A = Some u \<and> (\<forall>a b. d a b = u b a)"
    by (simp add: selected_flip)
  then show ?thesis
    by (simp add: desc_def descI_def descN_def descIN_def)
qed

text \<open>
  Claim C9. For an entry whose parent is an object pattern the handler returns at once, for
  every configuration: the state, with its frames and its reports, is the one it was
  called with. The walk over \<^verbatim>\<open>const {b, a} = obj;\<close> reports nothing.
\<close>

theorem pattern_entries_are_skipped:
  "(\<forall>cfg sc node s. parent_type node = T_ObjectPattern \<longrightarrow> Property cfg sc node s = Inr s) \<and>
   (\<forall>cfg. run cfg pattern_source pattern_events = Inr [])"
  by (simp add: Property_pattern run_def pattern_events_def identifier_property_def initial_def)

theorem pattern_entries_are_skipped_witness:
  "parent_type (identifier_property pattern_text T_ObjectPattern (7, 8) (7, 8)) = T_ObjectPattern \<and>
   Property (create naturalCompare grouping_on) pattern_source
     (identifier_property pattern_text T_ObjectPattern (7, 8) (7, 8)) initial = Inr initial"
  using pattern_entries_are_skipped
  by (simp add: identifier_property_def)

text \<open>
  Claim C10. In every state a walk reaches from its start, no frame carries a blank-line flag
  that is \<^verbatim>\<open>true\<close>. So the value of \<^verbatim>\<open>isBlankLineBetweenNodes\<close> at an entry is decided
  by the gap to the previous node alone: it is \<^verbatim>\<open>false\<close> when there is no previous node,
  and otherwise the qualifying blank line among the tokens between the two.
\<close>

theorem carried_flag_is_never_true:
  assumes "traverse cfg sc es initial = Inr s"
  shows "(\<forall>f \<in> set (stack s). prevBlankLine f \<noteq> Some True) \<and>
         (\<forall>f upper node. stack s = f # upper \<longrightarrow>
            (case prevNode f of
               None \<Rightarrow> isBlankLineBetweenNodes sc f node = Inr False
             | Some p \<Rightarrow>
                 getTokensBetween sc p node \<noteq> [] \<longrightarrow>
                 isBlankLineBetweenNodes sc f node =
                   Inr (qualifying_blank_line p (getTokensBetween sc p node) node)))"
proof -
  have ok: "frame_ok f" if "f \<in> set (stack s)" for f
    using traverse_initial_frame_ok[OF assms that] .
  then have flag: "prevBlankLine f \<noteq> Some True" if "f \<in> set (stack s)" for f
    using that by (simp add: frame_ok_def)
  show ?thesis
  proof (intro conjI ballI allI impI)
    fix f assume "f \<in> set (stack s)"
    then show "prevBlankLine f \<noteq> Some True" by (rule flag)
  next
    fix f upper node assume "stack s = f # upper"
    then have "prevBlankLine f \<noteq> Some True" using flag by simp
    then show "case prevNode f of
               None \<Rightarrow> isBlankLineBetweenNodes sc f node = Inr False
             | Some p \<Rightarrow>
                 getTokensBetween sc p node \<noteq> [] \<longrightarrow>
                 isBlankLineBetweenNodes sc f node =
                   Inr (qualifying_blank_line p (getTokensBetween sc p node) node)"
      by (auto simp: isBlankLineBetweenNodes_no_prevNode isBlankLineBetweenNodes_gap
               split: option.splits)
  qed
qed

theorem carried_flag_is_never_true_witness:
  "\<exists>s. traverse (create naturalCompare grouping_on) blank_line_source
          (butlast blank_line_events) initial = Inr s \<and>
       stack s \<noteq> [] \<and>
       list_all (\<lambda>f. prevBlankLine f \<noteq> Some True) (stack s)"
proof -
  have "case traverse (create naturalCompare grouping_on) blank_line_source
          (butlast blank_line_events) initial of Inl e \<Rightarrow> False | Inr s \<Rightarrow> stack s \<noteq> []"
    by code_simp
  then obtain s where
    s: "traverse (create naturalCompare grouping_on) blank_line_source
          (butlast blank_line_events) initial = Inr s" and ne: "stack s \<noteq> []"
    by (auto split: sum.splits)
  from carried_flag_is_never_true[OF s] show ?thesis
    using s ne by (auto simp: list_all_iff)
qed

end
